theory Spec2Isabelle
  imports Main
begin

section \<open>The index-notation expression engine (\<open>tensorbackends/utils/einstr.py\<close>)\<close>

subsection \<open>Data model\<close>

text \<open>
  An entry of a term is either an index id (a Python int, non-negative wherever the engine
  creates it) or the \<open>Ellipsis\<close> placeholder.
\<close>

datatype index = Idx nat | Ellipsis

text \<open>One constructor per \<open>raise\<close> site of the module (all are \<open>ValueError\<close> in the source,
  except \<open>KeyError\<close>, which is what \<open>set.pop\<close> raises on an empty set, and \<open>EmptyMax\<close>, the
  \<open>ValueError\<close> that \<open>max\<close> raises on an empty sequence).\<close>

datatype error =
    InvalidSubscripts
  | TooManyIndices nat
  | OperandCountMismatch nat
  | EmptyMax
  | MultipleEllipsis
  | FusingInInput
  | NestedParentheses
  | UnmatchedParentheses
  | NdimMismatch int
  | ExpectEllipsis
  | EllipsisNotExpanded
  | ShapeMismatch
  | TooManyOutputs
  | OutputNotSubsetOfInput
  | ExpectOneInput
  | ExpectAtLeastOneInput
  | ExpectTwoOutputs
  | RepeatedInputIndex
  | InputNotSubsetOfOutput
  | ExpectOneNewIndex
  | NewIndexNotInBothOutputs
  | OutputNotTwoDimensional
  | OnlyNewIndexCanRepeat
  | KeyError

text \<open>\<open>class InputTerm\<close>: \<open>indices\<close> and \<open>source\<close>; \<open>class OutputTerm\<close> adds \<open>fusing\<close>, a list
  of \<open>(start, end)\<close> positions. The positions are lengths of index lists when the parser
  creates them and stay non-negative under \<open>expand\<close>, so they are naturals here.\<close>

record input_term =
  indices :: "index list"
  source :: string

record output_term = input_term +
  fusing :: "(nat \<times> nat) list"

record expression =
  inputs :: "input_term list"
  outputs :: "output_term list"
  esource :: string

text \<open>\<open>Expression.input_indices\<close> and \<open>Expression.output_indices\<close>:
  \<open>set(itertools.chain.from_iterable(...))\<close>.\<close>

definition input_indices :: "expression \<Rightarrow> index set" where
  "input_indices e = set (concat (map indices (inputs e)))"

definition output_indices :: "expression \<Rightarrow> index set" where
  "output_indices e = set (concat (map indices (outputs e)))"

text \<open>The ids among a list of entries, the \<open>Ellipsis\<close> entries left out.\<close>

fun ids_of :: "index list \<Rightarrow> nat list" where
  "ids_of [] = []"
| "ids_of (Idx n # xs) = n # ids_of xs"
| "ids_of (Ellipsis # xs) = ids_of xs"

text \<open>\<open>Expression.nindices\<close>: \<open>max(idx for idx in chain(input_indices, output_indices)
  if idx is not Ellipsis) + 1\<close>; \<open>max\<close> of an empty sequence raises.\<close>

definition nindices :: "expression \<Rightarrow> error + nat" where
  "nindices e =
     (let ids = ids_of (concat (map indices (inputs e)) @ concat (map indices (outputs e)))
      in if ids = [] then Inl EmptyMax else Inr (Max (set ids) + 1))"

subsection \<open>Parsing\<close>

text \<open>The symbol table \<open>mapping\<close> is a dict from characters to ids, filled by
  \<open>mapping.setdefault(c, len(mapping))\<close>: an association list in insertion order.\<close>

type_synonym symtab = "(char \<times> nat) list"

definition setdefault :: "symtab \<Rightarrow> char \<Rightarrow> nat \<times> symtab" where
  "setdefault m c =
     (case map_of m c of
        Some v \<Rightarrow> (v, m)
      | None \<Rightarrow> (length m, m @ [(c, length m)]))"

text \<open>\<open>InputTerm.parse\<close>: the \<open>while i < len(subscripts)\<close> loop, on the rest of the string
  \<open>subscripts[i:]\<close>.\<close>

function input_parse_loop ::
  "string \<Rightarrow> bool \<Rightarrow> index list \<Rightarrow> symtab \<Rightarrow> error + (index list \<times> symtab)" where
  "input_parse_loop s found acc m =
     (case s of
        [] \<Rightarrow> Inr (acc, m)
      | c # cs \<Rightarrow>
          if take 3 s = ''...'' then
            (if found then Inl MultipleEllipsis
             else input_parse_loop (drop 3 s) True (acc @ [Ellipsis]) m)
          else if c = CHR ''('' \<or> c = CHR '')'' then Inl FusingInInput
          else (case setdefault m c of
                  (v, m') \<Rightarrow> input_parse_loop cs found (acc @ [Idx v]) m'))"
  by pat_completeness auto
termination
  by (relation "measure (\<lambda>(s, found, acc, m). length s)") auto

declare input_parse_loop.simps [simp del]

definition input_parse :: "string \<Rightarrow> symtab \<Rightarrow> error + (input_term \<times> symtab)" where
  "input_parse subscripts m =
     (case input_parse_loop subscripts False [] m of
        Inl err \<Rightarrow> Inl err
      | Inr (idxs, m') \<Rightarrow> Inr (\<lparr>indices = idxs, source = subscripts\<rparr>, m'))"

text \<open>\<open>OutputTerm.parse\<close>: the same loop with the fusing groups; \<open>start\<close> is \<open>None\<close> outside
  a group.\<close>

function output_parse_loop ::
  "string \<Rightarrow> bool \<Rightarrow> nat option \<Rightarrow> index list \<Rightarrow> (nat \<times> nat) list \<Rightarrow> symtab
     \<Rightarrow> error + (index list \<times> (nat \<times> nat) list \<times> symtab)" where
  "output_parse_loop s found start acc fus m =
     (case s of
        [] \<Rightarrow> (if start \<noteq> None then Inl UnmatchedParentheses else Inr (acc, fus, m))
      | c # cs \<Rightarrow>
          if take 3 s = ''...'' then
            (if found then Inl MultipleEllipsis
             else output_parse_loop (drop 3 s) True start (acc @ [Ellipsis]) fus m)
          else if c = CHR ''('' then
            (if start \<noteq> None then Inl NestedParentheses
             else output_parse_loop cs found (Some (length acc)) acc fus m)
          else if c = CHR '')'' then
            (case start of
               None \<Rightarrow> Inl UnmatchedParentheses
             | Some st \<Rightarrow> output_parse_loop cs found None acc (fus @ [(st, length acc)]) m)
          else (case setdefault m c of
                  (v, m') \<Rightarrow> output_parse_loop cs found start (acc @ [Idx v]) fus m'))"
  by pat_completeness auto
termination
  by (relation "measure (\<lambda>(s, found, start, acc, fus, m). length s)") auto

declare output_parse_loop.simps [simp del]

definition output_parse :: "string \<Rightarrow> symtab \<Rightarrow> error + (output_term \<times> symtab)" where
  "output_parse subscripts m =
     (case output_parse_loop subscripts False None [] [] m of
        Inl err \<Rightarrow> Inl err
      | Inr (idxs, fus, m') \<Rightarrow>
          Inr (\<lparr>indices = idxs, source = subscripts, fusing = fus\<rparr>, m'))"

text \<open>The list comprehensions \<open>[InputTerm.parse(s, mapping) for s in input_subscripts]\<close> and
  \<open>[OutputTerm.parse(s, mapping) for s in output_subscripts]\<close>: the one dict is threaded
  through all the terms, and the first failing term raises.\<close>

fun parse_inputs :: "string list \<Rightarrow> symtab \<Rightarrow> error + (input_term list \<times> symtab)" where
  "parse_inputs [] m = Inr ([], m)"
| "parse_inputs (s # ss) m =
     (case input_parse s m of
        Inl err \<Rightarrow> Inl err
      | Inr (t, m') \<Rightarrow>
          (case parse_inputs ss m' of
             Inl err \<Rightarrow> Inl err
           | Inr (ts, m'') \<Rightarrow> Inr (t # ts, m'')))"

fun parse_outputs :: "string list \<Rightarrow> symtab \<Rightarrow> error + (output_term list \<times> symtab)" where
  "parse_outputs [] m = Inr ([], m)"
| "parse_outputs (s # ss) m =
     (case output_parse s m of
        Inl err \<Rightarrow> Inl err
      | Inr (t, m') \<Rightarrow>
          (case parse_outputs ss m' of
             Inl err \<Rightarrow> Inl err
           | Inr (ts, m'') \<Rightarrow> Inr (t # ts, m'')))"

text \<open>\<open>re.sub(r'\s', '', subscripts)\<close>: the characters that \<open>\s\<close> matches, among the
  8-bit characters that \<open>char\<close> has.\<close>

definition is_space :: "char \<Rightarrow> bool" where
  "is_space c \<longleftrightarrow> (of_char c :: nat) \<in> set [9, 10, 11, 12, 13, 28, 29, 30, 31, 32, 133, 160]"

text \<open>\<open>str.split(',')\<close>: the result is never empty, so the last case is never taken.\<close>

fun split_char :: "char \<Rightarrow> string \<Rightarrow> string list" where
  "split_char sep [] = [[]]"
| "split_char sep (c # cs) =
     (if c = sep then [] # split_char sep cs
      else (case split_char sep cs of
              w # ws \<Rightarrow> (c # w) # ws
            | [] \<Rightarrow> [[c]]))"

text \<open>\<open>str.split('->')\<close>: occurrences are found from the left and do not overlap.\<close>

fun split_arrow :: "string \<Rightarrow> string list" where
  "split_arrow [] = [[]]"
| "split_arrow [c] = [[c]]"
| "split_arrow (c # d # cs) =
     (if c = CHR ''-'' \<and> d = CHR ''>'' then [] # split_arrow cs
      else (case split_arrow (d # cs) of
              w # ws \<Rightarrow> (c # w) # ws
            | [] \<Rightarrow> [[c]]))"

text \<open>\<open>chars = string.ascii_letters\<close>, of length 52.\<close>

definition chars :: string where
  "chars = ''abcdefghijklmnopqrstuvwxyzABCDEFGHIJKLMNOPQRSTUVWXYZ''"

text \<open>\<open>Expression.parse\<close>.\<close>

definition parse :: "string \<Rightarrow> error + expression" where
  "parse subscripts0 =
     (let subscripts = filter (\<lambda>c. \<not> is_space c) subscripts0;
          inputs_outputs = split_arrow subscripts
      in if length inputs_outputs \<noteq> 2 then Inl InvalidSubscripts
         else
           (case parse_inputs (split_char CHR '','' (inputs_outputs ! 0)) [] of
              Inl err \<Rightarrow> Inl err
            | Inr (ins, m) \<Rightarrow>
                (case parse_outputs (split_char CHR '','' (inputs_outputs ! 1)) m of
                   Inl err \<Rightarrow> Inl err
                 | Inr (outs, m') \<Rightarrow>
                     if length m' > length chars then Inl (TooManyIndices (length m'))
                     else Inr \<lparr>inputs = ins, outputs = outs, esource = subscripts\<rparr>)))"

subsection \<open>Matching against operand ranks\<close>

text \<open>\<open>InputTerm.match(ndim, fresh)\<close>: the loop over \<open>enumerate(self.indices)\<close>. The closure
  \<open>fresh\<close> increments the counter \<open>nindices\<close> of the enclosing \<open>Expression.match\<close>; the
  counter is passed in and returned. \<open>ndim\<close> and \<open>i\<close> are Python ints.\<close>

fun input_match_loop ::
  "nat \<Rightarrow> int \<Rightarrow> (nat \<times> index) list \<Rightarrow> int \<Rightarrow> index list \<Rightarrow> nat
     \<Rightarrow> error + (int \<times> index list \<times> nat)" where
  "input_match_loop len ndim [] i newindices n = Inr (i, newindices, n)"
| "input_match_loop len ndim ((j, Ellipsis) # rest) i newindices n =
     (let count = (ndim - i) - (int len - int j - 1)
      in if count < 0 then Inl (NdimMismatch ndim)
         else input_match_loop len ndim rest (i + count)
                (newindices @ map Idx [n ..< n + nat count]) (n + nat count))"
| "input_match_loop len ndim ((j, Idx k) # rest) i newindices n =
     input_match_loop len ndim rest (i + 1) (newindices @ [Idx k]) n"

definition input_match :: "input_term \<Rightarrow> int \<Rightarrow> nat \<Rightarrow> error + (input_term \<times> nat)" where
  "input_match t ndim n =
     (case input_match_loop (length (indices t)) ndim (enumerate 0 (indices t)) 0 [] n of
        Inl err \<Rightarrow> Inl err
      | Inr (i, newindices, n') \<Rightarrow>
          if i \<noteq> ndim then Inl (NdimMismatch ndim)
          else Inr (\<lparr>indices = newindices, source = source t\<rparr>, n'))"

text \<open>\<open>[t.match(ndim, fresh) for t, ndim in zip(self.inputs, ndims)]\<close>.\<close>

fun match_inputs ::
  "(input_term \<times> int) list \<Rightarrow> nat \<Rightarrow> error + (input_term list \<times> nat)" where
  "match_inputs [] n = Inr ([], n)"
| "match_inputs ((t, ndim) # rest) n =
     (case input_match t ndim n of
        Inl err \<Rightarrow> Inl err
      | Inr (t', n') \<Rightarrow>
          (case match_inputs rest n' of
             Inl err \<Rightarrow> Inl err
           | Inr (ts, n'') \<Rightarrow> Inr (t' # ts, n'')))"

text \<open>\<open>OutputTerm.expand(ellipsis)\<close>: the loop over \<open>enumerate(self.indices)\<close>, with
  \<open>ellipsis_position\<close> starting at \<open>-1\<close>.\<close>

fun expand_loop :: "index list \<Rightarrow> (nat \<times> index) list \<Rightarrow> index list \<Rightarrow> int \<Rightarrow> index list \<times> int" where
  "expand_loop ellipsis [] newindices pos = (newindices, pos)"
| "expand_loop ellipsis ((i, Ellipsis) # rest) newindices pos =
     expand_loop ellipsis rest (newindices @ ellipsis) (int i)"
| "expand_loop ellipsis ((i, Idx k) # rest) newindices pos =
     expand_loop ellipsis rest (newindices @ [Idx k]) pos"

text \<open>\<open>pad = lambda j: (j + len(ellipsis) - 1) if j > ellipsis_position else j\<close>.
  It is only called with \<open>ellipsis_position \<ge> 0\<close>, so \<open>j \<ge> 1\<close> where one is subtracted.\<close>

definition pad :: "nat \<Rightarrow> int \<Rightarrow> nat \<Rightarrow> nat" where
  "pad len_ellipsis ellipsis_position j =
     (if int j > ellipsis_position then j + len_ellipsis - 1 else j)"

definition expand :: "output_term \<Rightarrow> index list \<Rightarrow> error + output_term" where
  "expand t ellipsis =
     (case expand_loop ellipsis (enumerate 0 (indices t)) [] (- 1) of
        (newindices, ellipsis_position) \<Rightarrow>
          if ellipsis \<noteq> [] \<and> ellipsis_position < 0 then Inl ExpectEllipsis
          else
            (let newfusing =
                   (if ellipsis_position < 0 then fusing t
                    else map (\<lambda>(start, end).
                                (pad (length ellipsis) ellipsis_position start,
                                 pad (length ellipsis) ellipsis_position end)) (fusing t))
             in Inr \<lparr>indices = newindices, source = source t, fusing = newfusing\<rparr>))"

text \<open>\<open>[t.expand(ellipsis) for t in self.outputs]\<close>.\<close>

fun expand_all :: "output_term list \<Rightarrow> index list \<Rightarrow> error + output_term list" where
  "expand_all [] ellipsis = Inr []"
| "expand_all (t # ts) ellipsis =
     (case expand t ellipsis of
        Inl err \<Rightarrow> Inl err
      | Inr t' \<Rightarrow>
          (case expand_all ts ellipsis of
             Inl err \<Rightarrow> Inl err
           | Inr ts' \<Rightarrow> Inr (t' # ts')))"

text \<open>\<open>Expression.match(ndims)\<close>.\<close>

definition match :: "expression \<Rightarrow> int list \<Rightarrow> error + expression" where
  "match e ndims =
     (if length ndims \<noteq> length (inputs e) then Inl (OperandCountMismatch (length ndims))
      else
        (case nindices e of
           Inl err \<Rightarrow> Inl err
         | Inr n0 \<Rightarrow>
             (case match_inputs (zip (inputs e) ndims) n0 of
                Inl err \<Rightarrow> Inl err
              | Inr (newinputs, n1) \<Rightarrow>
                  (let ellipsis = map Idx [n0 ..< n1]
                   in case expand_all (outputs e) ellipsis of
                        Inl err \<Rightarrow> Inl err
                      | Inr newoutputs \<Rightarrow>
                          Inr \<lparr>inputs = newinputs, outputs = newoutputs,
                               esource = esource e\<rparr>))))"

subsection \<open>Validators of the three operation families\<close>

text \<open>The checks of \<open>parse_einsum\<close> on the matched expression.\<close>

definition validate_einsum :: "expression \<Rightarrow> error + expression" where
  "validate_einsum expr =
     (if length (outputs expr) \<noteq> 1 then Inl TooManyOutputs
      else if \<not> output_indices expr \<subseteq> input_indices expr then Inl OutputNotSubsetOfInput
      else Inr expr)"

text \<open>\<open>newindices.pop()\<close> is only reached in the validators once \<open>len(newindices) == 1\<close>, where
  it returns the one element. In \<open>split_einsumsvd\<close> it is called unguarded: it raises
  \<open>KeyError\<close> on the empty set and returns an element that the language leaves open on a
  set of several elements.\<close>

definition pop :: "'a set \<Rightarrow> error + 'a" where
  "pop S =
     (if S = {} then Inl KeyError
      else if is_singleton S then Inr (the_elem S)
      else Inr (SOME x. x \<in> S))"

text \<open>The checks of \<open>parse_einsvd\<close> on the matched expression.\<close>

definition validate_einsvd :: "expression \<Rightarrow> error + expression" where
  "validate_einsvd expr =
     (if length (inputs expr) \<noteq> 1 then Inl ExpectOneInput
      else if length (outputs expr) \<noteq> 2 then Inl ExpectTwoOutputs
      else if card (set (indices (inputs expr ! 0))) \<noteq> length (indices (inputs expr ! 0))
        then Inl RepeatedInputIndex
      else if \<not> input_indices expr \<subseteq> output_indices expr then Inl InputNotSubsetOfOutput
      else
        (let newindices = output_indices expr - input_indices expr
         in if card newindices \<noteq> 1 then Inl ExpectOneNewIndex
            else
              (let newindex = the_elem newindices
               in if newindex \<notin> set (indices (outputs expr ! 0))
                     \<or> newindex \<notin> set (indices (outputs expr ! 1))
                    then Inl NewIndexNotInBothOutputs
                  else if length (indices (outputs expr ! 0)) = 1
                          \<or> length (indices (outputs expr ! 1)) = 1
                    then Inl OutputNotTwoDimensional
                  else if int (card (output_indices expr))
                          \<noteq> int (length (indices (outputs expr ! 0)))
                              + int (length (indices (outputs expr ! 1))) - 1
                    then Inl OnlyNewIndexCanRepeat
                  else Inr expr)))"

text \<open>The checks of \<open>parse_einsumsvd\<close> on the matched expression.\<close>

definition validate_einsumsvd :: "expression \<Rightarrow> error + expression" where
  "validate_einsumsvd expr =
     (if length (inputs expr) < 1 then Inl ExpectAtLeastOneInput
      else if length (outputs expr) \<noteq> 2 then Inl ExpectTwoOutputs
      else
        (let newindices = output_indices expr - input_indices expr
         in if card newindices \<noteq> 1 then Inl ExpectOneNewIndex
            else
              (let newindex = the_elem newindices
               in if newindex \<notin> set (indices (outputs expr ! 0))
                     \<or> newindex \<notin> set (indices (outputs expr ! 1))
                    then Inl NewIndexNotInBothOutputs
                  else if length (indices (outputs expr ! 0)) = 1
                          \<or> length (indices (outputs expr ! 1)) = 1
                    then Inl OutputNotTwoDimensional
                  else Inr expr)))"

text \<open>The three entry points start with \<open>parse(subscripts).match(ndims)\<close> and then run the
  family's checks; an exception of an earlier stage ends the call.\<close>

definition and_then :: "error + 'a \<Rightarrow> ('a \<Rightarrow> error + 'b) \<Rightarrow> error + 'b" where
  "and_then r f = (case r of Inl err \<Rightarrow> Inl err | Inr v \<Rightarrow> f v)"

definition parse_match :: "string \<Rightarrow> int list \<Rightarrow> error + expression" where
  "parse_match subscripts ndims = and_then (parse subscripts) (\<lambda>e. match e ndims)"

definition parse_einsum :: "string \<Rightarrow> int list \<Rightarrow> error + expression" where
  "parse_einsum subscripts ndims = and_then (parse_match subscripts ndims) validate_einsum"

definition parse_einsvd :: "string \<Rightarrow> int \<Rightarrow> error + expression" where
  "parse_einsvd subscripts ndim = and_then (parse_match subscripts [ndim]) validate_einsvd"

definition parse_einsumsvd :: "string \<Rightarrow> int list \<Rightarrow> error + expression" where
  "parse_einsumsvd subscripts ndims =
     and_then (parse_match subscripts ndims) validate_einsumsvd"

subsection \<open>Splitting a fused expression\<close>

text \<open>\<open>split_einsumsvd\<close>: the intermediate term lists, in order, every entry of the two output
  terms that is not the new index.\<close>

definition split_einsumsvd :: "expression \<Rightarrow> error + (expression \<times> expression)" where
  "split_einsumsvd expr =
     (case pop (output_indices expr - input_indices expr) of
        Inl err \<Rightarrow> Inl err
      | Inr newindex \<Rightarrow>
          (let intermediate_indices =
                 filter (\<lambda>idx. idx \<noteq> newindex) (concat (map indices (outputs expr)));
               output_intermediate =
                 [\<lparr>indices = intermediate_indices, source = [], fusing = []\<rparr>];
               input_intermediate = [\<lparr>indices = intermediate_indices, source = []\<rparr>];
               einsum_expr = \<lparr>inputs = inputs expr, outputs = output_intermediate,
                               esource = esource expr\<rparr>;
               einsvd_expr = \<lparr>inputs = input_intermediate, outputs = outputs expr,
                               esource = esource expr\<rparr>
           in Inr (einsum_expr, einsvd_expr)))"

subsection \<open>Output shape resolution\<close>

text \<open>\<open>functools.reduce(operator.mul, xs, 1)\<close>.\<close>

definition reduce_mul :: "int list \<Rightarrow> int" where
  "reduce_mul xs = foldl (\<lambda>a b. a * b) 1 xs"

text \<open>A slice \<open>shape[a:b]\<close> with \<open>0 \<le> a\<close> and \<open>0 \<le> b\<close>: empty when \<open>b \<le> a\<close>, cut at the end
  of the list.\<close>

definition slice :: "'a list \<Rightarrow> nat \<Rightarrow> nat \<Rightarrow> 'a list" where
  "slice xs a b = take (b - a) (drop a xs)"

text \<open>The loop \<open>for start, end in self.fusing\<close> of \<open>OutputTerm.newshape\<close>, followed by
  \<open>newshape.extend(shape[i:])\<close>.\<close>

fun newshape_loop :: "(nat \<times> nat) list \<Rightarrow> int list \<Rightarrow> nat \<Rightarrow> int list \<Rightarrow> int list" where
  "newshape_loop [] shape i acc = acc @ drop i shape"
| "newshape_loop ((start, end) # rest) shape i acc =
     newshape_loop rest shape end
       (acc @ slice shape i start @ [reduce_mul (slice shape start end)])"

definition newshape :: "output_term \<Rightarrow> int list \<Rightarrow> error + int list" where
  "newshape t shape =
     (if Ellipsis \<in> set (indices t) then Inl EllipsisNotExpanded
      else if length shape \<noteq> length (indices t) then Inl ShapeMismatch
      else Inr (newshape_loop (fusing t) shape 0 []))"

subsection \<open>The rules of the decomposition families, as predicates\<close>

text \<open>The set difference (output indices minus input indices), the input-index universe being
  the union over all input terms.\<close>

definition new_index_set :: "expression \<Rightarrow> index set" where
  "new_index_set e =
     (\<Union>t \<in> set (outputs e). set (indices t)) - (\<Union>t \<in> set (inputs e). set (indices t))"

text \<open>Exactly one new index, present in both output terms, each output term with at least two
  index positions.\<close>

definition new_index_rules :: "expression \<Rightarrow> bool" where
  "new_index_rules e \<longleftrightarrow>
     card (new_index_set e) = 1
     \<and> new_index_set e \<subseteq> set (indices (outputs e ! 0))
     \<and> new_index_set e \<subseteq> set (indices (outputs e ! 1))
     \<and> 2 \<le> length (indices (outputs e ! 0))
     \<and> 2 \<le> length (indices (outputs e ! 1))"

text \<open>The entries of the two output terms combined.\<close>

definition both_outputs :: "expression \<Rightarrow> index list" where
  "both_outputs e = indices (outputs e ! 0) @ indices (outputs e ! 1)"

text \<open>The rules of the decomposition family as the specification words them, for an expression
  with one input term and two output terms: input indices pairwise distinct, every input
  index preserved in the outputs, the new-index rules, and no index other than the new one
  repeated across the two output terms combined.\<close>

definition einsvd_family_rules :: "expression \<Rightarrow> bool" where
  "einsvd_family_rules e \<longleftrightarrow>
     distinct (indices (inputs e ! 0))
     \<and> set (indices (inputs e ! 0)) \<subseteq> set (both_outputs e)
     \<and> new_index_rules e
     \<and> (\<forall>x \<in> set (both_outputs e).
           x \<notin> new_index_set e \<longrightarrow> count_list (both_outputs e) x \<le> 1)"

text \<open>The same rules with the last one as the length comparison of \<open>parse_einsvd\<close> decides it:
  across the two output terms combined the new index occurs exactly twice and every other
  index exactly once.\<close>

definition einsvd_exact_rules :: "expression \<Rightarrow> bool" where
  "einsvd_exact_rules e \<longleftrightarrow>
     distinct (indices (inputs e ! 0))
     \<and> set (indices (inputs e ! 0)) \<subseteq> set (both_outputs e)
     \<and> new_index_rules e
     \<and> (\<forall>x \<in> set (both_outputs e).
           count_list (both_outputs e) x = (if x \<in> new_index_set e then 2 else 1))"

subsection \<open>Example expressions\<close>

text \<open>The matched expressions of \<open>ii->i\<close> (rank 2), \<open>ij->ia,ja\<close> (rank 2), \<open>ij->iaa,ja\<close>
  (rank 2), \<open>ij->ia,ia\<close> (rank 2) and \<open>ij,jk->ia,ka\<close> (ranks 2 and 2).\<close>

definition diag_expr :: expression where
  "diag_expr =
     \<lparr>inputs = [\<lparr>indices = [Idx 0, Idx 0], source = ''ii''\<rparr>],
      outputs = [\<lparr>indices = [Idx 0], source = ''i'', fusing = []\<rparr>],
      esource = ''ii->i''\<rparr>"

definition svd_expr :: expression where
  "svd_expr = \<lparr>inputs = [\<lparr>indices = [Idx 0, Idx 1], source = ''ij''\<rparr>],
        outputs =
          [\<lparr>indices = [Idx 0, Idx 2], source = ''ia'', fusing = []\<rparr>,
           \<lparr>indices = [Idx 1, Idx 2], source = ''ja'', fusing = []\<rparr>],
        esource = ''ij->ia,ja''\<rparr>"

definition triple_expr :: expression where
  "triple_expr = \<lparr>inputs = [\<lparr>indices = [Idx 0, Idx 1], source = ''ij''\<rparr>],
        outputs =
          [\<lparr>indices = [Idx 0, Idx 2, Idx 2], source = ''iaa'', fusing = []\<rparr>,
           \<lparr>indices = [Idx 1, Idx 2], source = ''ja'', fusing = []\<rparr>],
        esource = ''ij->iaa,ja''\<rparr>"

definition dup_expr :: expression where
  "dup_expr = \<lparr>inputs = [\<lparr>indices = [Idx 0, Idx 1], source = ''ij''\<rparr>],
        outputs =
          [\<lparr>indices = [Idx 0, Idx 2], source = ''ia'', fusing = []\<rparr>,
           \<lparr>indices = [Idx 0, Idx 2], source = ''ia'', fusing = []\<rparr>],
        esource = ''ij->ia,ia''\<rparr>"

definition fused_expr :: expression where
  "fused_expr = \<lparr>inputs =
        [\<lparr>indices = [Idx 0, Idx 1], source = ''ij''\<rparr>,
         \<lparr>indices = [Idx 1, Idx 2], source = ''jk''\<rparr>],
        outputs =
          [\<lparr>indices = [Idx 0, Idx 3], source = ''ia'', fusing = []\<rparr>,
           \<lparr>indices = [Idx 2, Idx 3], source = ''ka'', fusing = []\<rparr>],
        esource = ''ij,jk->ia,ka''\<rparr>"

subsection \<open>Shape resolution, as the specification describes it\<close>

text \<open>Fusing groups in increasing order from position \<open>i\<close> on: each group starts at or after the
  end of the one before, and ends at or after its start.\<close>

fun ordered_from :: "nat \<Rightarrow> (nat \<times> nat) list \<Rightarrow> bool" where
  "ordered_from i [] = True"
| "ordered_from i ((start, end) # gs) = (i \<le> start \<and> start \<le> end \<and> ordered_from end gs)"

text \<open>The groups with their positions counted from position \<open>k\<close> on.\<close>

definition shift_groups :: "nat \<Rightarrow> (nat \<times> nat) list \<Rightarrow> (nat \<times> nat) list" where
  "shift_groups k gs = map (\<lambda>(start, end). (start - k, end - k)) gs"

text \<open>The resolved shape in the words of the specification: the axes before the first group
  pass through unchanged, the axes of the group are replaced by their product, and the same
  is done with the remaining groups on the axes after the group.\<close>

fun fuse_axes :: "(nat \<times> nat) list \<Rightarrow> int list \<Rightarrow> int list" where
  "fuse_axes [] shape = shape"
| "fuse_axes ((start, end) # gs) shape =
     take start shape @ [prod_list (take (end - start) (drop start shape))]
       @ fuse_axes (map (\<lambda>(a, b). (a - end, b - end)) gs) (drop end shape)"

text \<open>The output term of \<open>a...->(b...c)(d)\<close>, matched against rank 4.\<close>

definition fused_term :: output_term where
  "fused_term = \<lparr>indices = [Idx 1, Idx 4, Idx 5, Idx 6, Idx 2, Idx 3],
              source = ''(b...c)(d)'', fusing = [(0, 5), (5, 6)]\<rparr>"

subsection \<open>Literal indices and broadcast runs\<close>

text \<open>The number of literal indices of a term.\<close>

definition literal_count :: "index list \<Rightarrow> nat" where
  "literal_count xs = length (filter (\<lambda>x. x \<noteq> Ellipsis) xs)"

text \<open>The input terms \<open>i...\<close> and \<open>ij\<close>, as the parser builds them.\<close>

definition bcast_term :: input_term where
  "bcast_term = \<lparr>indices = [Idx 0, Ellipsis], source = ''i...''\<rparr>"

definition plain_term :: input_term where
  "plain_term = \<lparr>indices = [Idx 0, Idx 1], source = ''ij''\<rparr>"

subsection \<open>The canonical ellipsis expansion\<close>

text \<open>A list of entries with every \<open>Ellipsis\<close> replaced by the run.\<close>

definition substitute_ellipsis :: "index list \<Rightarrow> index list \<Rightarrow> index list" where
  "substitute_ellipsis run xs = concat (map (\<lambda>x. if x = Ellipsis then run else [x]) xs)"

text \<open>The broadcast-run lengths \<open>r - k\<close> of the input terms that have an ellipsis, in order.\<close>

definition run_lengths :: "expression \<Rightarrow> int list \<Rightarrow> nat list" where
  "run_lengths e ndims =
     [nat (r - int (literal_count (indices t))).
        (t, r) \<leftarrow> zip (inputs e) ndims, Ellipsis \<in> set (indices t)]"

text \<open>\<open>i...,j...->i...,j...\<close> as parsed and as matched against ranks 3 and 2; \<open>i...->i\<close> and
  \<open>ab...->b...,a\<close> as parsed.\<close>

definition bcast_parsed :: expression where
  "bcast_parsed =
     \<lparr>inputs = [\<lparr>indices = [Idx 0, Ellipsis], source = ''i...''\<rparr>,
                \<lparr>indices = [Idx 1, Ellipsis], source = ''j...''\<rparr>],
      outputs = [\<lparr>indices = [Idx 0, Ellipsis], source = ''i...'', fusing = []\<rparr>,
                 \<lparr>indices = [Idx 1, Ellipsis], source = ''j...'', fusing = []\<rparr>],
      esource = ''i...,j...->i...,j...''\<rparr>"

definition bcast_expr :: expression where
  "bcast_expr =
     \<lparr>inputs = [\<lparr>indices = [Idx 0, Idx 2, Idx 3], source = ''i...''\<rparr>,
                \<lparr>indices = [Idx 1, Idx 4], source = ''j...''\<rparr>],
      outputs = [\<lparr>indices = [Idx 0, Idx 2, Idx 3, Idx 4], source = ''i...'', fusing = []\<rparr>,
                 \<lparr>indices = [Idx 1, Idx 2, Idx 3, Idx 4], source = ''j...'', fusing = []\<rparr>],
      esource = ''i...,j...->i...,j...''\<rparr>"

definition drop_parsed :: expression where
  "drop_parsed =
     \<lparr>inputs = [\<lparr>indices = [Idx 0, Ellipsis], source = ''i...''\<rparr>],
      outputs = [\<lparr>indices = [Idx 0], source = ''i'', fusing = []\<rparr>],
      esource = ''i...->i''\<rparr>"

definition swap_parsed :: expression where
  "swap_parsed =
     \<lparr>inputs = [\<lparr>indices = [Idx 0, Idx 1, Ellipsis], source = ''ab...''\<rparr>],
      outputs = [\<lparr>indices = [Idx 1, Ellipsis], source = ''b...'', fusing = []\<rparr>,
                 \<lparr>indices = [Idx 0], source = ''a'', fusing = []\<rparr>],
      esource = ''ab...->b...,a''\<rparr>"

subsection \<open>Subscript strings without index letters\<close>

text \<open>The grammatically well-formed subscript strings with no index letter and no ellipsis,
  white space removed: every input term is empty, so the inputs are \<open>n\<close> commas; every output
  term is a sequence of empty fusing groups \<open>()\<close>, and there is at least one output term.\<close>

definition paren_groups :: "nat \<Rightarrow> string" where
  "paren_groups k = concat (replicate k ''()'')"

fun join_comma :: "string list \<Rightarrow> string" where
  "join_comma [] = []"
| "join_comma [t] = t"
| "join_comma (t # u # ts) = t @ CHR '','' # join_comma (u # ts)"

definition letter_free_subscripts :: "nat \<Rightarrow> nat \<Rightarrow> nat list \<Rightarrow> string" where
  "letter_free_subscripts n k ks =
     replicate n CHR '','' @ ''->'' @ join_comma (map paren_groups (k # ks))"

text \<open>The expression that the parser builds from such a string.\<close>

definition letter_free_expression :: "nat \<Rightarrow> nat \<Rightarrow> nat list \<Rightarrow> expression" where
  "letter_free_expression n k ks =
     \<lparr>inputs = replicate (Suc n) \<lparr>indices = [], source = []\<rparr>,
      outputs = map (\<lambda>j. \<lparr>indices = [], source = paren_groups j,
                            fusing = replicate j (0, 0)\<rparr>) (k # ks),
      esource = letter_free_subscripts n k ks\<rparr>"

subsection \<open>The ids of an expression\<close>

text \<open>The distinct ids that the terms of an expression refer to.\<close>

definition ids_in_use :: "expression \<Rightarrow> nat set" where
  "ids_in_use e =
     set (ids_of (concat (map indices (inputs e)) @ concat (map indices (outputs e))))"

text \<open>The two halves of \<open>ij,jk->ia,ka\<close> (ranks 2 and 2) after the split.\<close>

definition fused_einsum_half :: expression where
  "fused_einsum_half =
     \<lparr>inputs = [\<lparr>indices = [Idx 0, Idx 1], source = ''ij''\<rparr>,
                \<lparr>indices = [Idx 1, Idx 2], source = ''jk''\<rparr>],
      outputs = [\<lparr>indices = [Idx 0, Idx 2], source = [], fusing = []\<rparr>],
      esource = ''ij,jk->ia,ka''\<rparr>"

definition fused_einsvd_half :: expression where
  "fused_einsvd_half =
     \<lparr>inputs = [\<lparr>indices = [Idx 0, Idx 2], source = []\<rparr>],
      outputs = [\<lparr>indices = [Idx 0, Idx 3], source = ''ia'', fusing = []\<rparr>,
                 \<lparr>indices = [Idx 2, Idx 3], source = ''ka'', fusing = []\<rparr>],
      esource = ''ij,jk->ia,ka''\<rparr>"

subsection \<open>Invariant of the fusing groups while an output term is parsed\<close>

text \<open>The position at which the last of the groups ends, \<open>i\<close> when there is none.\<close>

fun groups_end :: "nat \<Rightarrow> (nat \<times> nat) list \<Rightarrow> nat" where
  "groups_end i [] = i"
| "groups_end i ((start, end) # gs) = groups_end end gs"

text \<open>The groups closed so far are in increasing order and end at or before the group that is
  open, or before the current position.\<close>

definition groups_invariant :: "nat option \<Rightarrow> index list \<Rightarrow> (nat \<times> nat) list \<Rightarrow> bool" where
  "groups_invariant start acc fus \<longleftrightarrow>
     ordered_from 0 fus
     \<and> (case start of
          None \<Rightarrow> groups_end 0 fus \<le> length acc
        | Some st \<Rightarrow> groups_end 0 fus \<le> st \<and> st \<le> length acc)"

text \<open>\<open>a...->(b...c)(d)\<close>, matched against rank 4.\<close>

definition fused_matched :: expression where
  "fused_matched =
     \<lparr>inputs = [\<lparr>indices = [Idx 0, Idx 4, Idx 5, Idx 6], source = ''a...''\<rparr>],
      outputs = [fused_term],
      esource = ''a...->(b...c)(d)''\<rparr>"

subsection \<open>Dense numbering\<close>

text \<open>A symbol table that numbers its symbols \<open>0, 1, ...\<close> in insertion order.\<close>

definition dense_symtab :: "symtab \<Rightarrow> bool" where
  "dense_symtab m \<longleftrightarrow> map snd m = [0 ..< length m]"

text \<open>The ids of one term, and of a list of terms.\<close>

definition term_ids :: "index list \<Rightarrow> nat set" where
  "term_ids xs = set (ids_of xs)"

definition terms_ids :: "'a input_term_scheme list \<Rightarrow> nat set" where
  "terms_ids ts = term_ids (concat (map indices ts))"

text \<open>What one run of a parse loop does to the symbol table and the ids of the term.\<close>

definition table_step :: "symtab \<Rightarrow> nat set \<Rightarrow> symtab \<Rightarrow> nat set \<Rightarrow> bool" where
  "table_step m A m' A' \<longleftrightarrow>
     dense_symtab m' \<and> length m \<le> length m' \<and> A \<subseteq> A'
     \<and> A' \<subseteq> A \<union> {0 ..< length m'} \<and> {length m ..< length m'} \<subseteq> A'"

section \<open>Verification\<close>

subsection \<open>Evaluation of the examples\<close>

lemmas eval_sets = output_indices_def input_indices_def new_index_set_def new_index_rules_def
  both_outputs_def insert_Diff_if Let_def card_insert_if

lemma parse_match_diag: "parse_match ''ii->i'' [2] = Inr diag_expr"
  unfolding diag_expr_def by code_simp
lemma parse_match_svd: "parse_match ''ij->ia,ja'' [2] = Inr svd_expr"
  unfolding svd_expr_def by code_simp
lemma parse_match_triple: "parse_match ''ij->iaa,ja'' [2] = Inr triple_expr"
  unfolding triple_expr_def by code_simp
lemma parse_match_dup: "parse_match ''ij->ia,ia'' [2] = Inr dup_expr"
  unfolding dup_expr_def by code_simp
lemma parse_match_fused: "parse_match ''ij,jk->ia,ka'' [2, 2] = Inr fused_expr"
  unfolding fused_expr_def by code_simp

subsection \<open>Counting repeated entries of a list\<close>

lemma count_list_pos: "x \<in> set zs \<Longrightarrow> 1 \<le> count_list zs x"
  using count_list_0_iff [of zs x] by (cases "count_list zs x") auto

lemma length_minus_card:
  "length zs = card (set zs) + (\<Sum>x\<in>set zs. count_list zs x - 1)"
proof -
  have "length zs = (\<Sum>x\<in>set zs. count_list zs x)"
    by (simp add: sum_count_set)
  also have "\<dots> = (\<Sum>x\<in>set zs. 1 + (count_list zs x - 1))"
  proof (rule sum.cong)
    fix x assume "x \<in> set zs"
    then show "count_list zs x = 1 + (count_list zs x - 1)"
      using count_list_pos [of x zs] by simp
  qed simp
  also have "\<dots> = card (set zs) + (\<Sum>x\<in>set zs. count_list zs x - 1)"
    by (simp add: sum_Suc)
  finally show ?thesis .
qed

lemma one_repeat_iff:
  assumes "2 \<le> count_list zs a"
  shows "int (card (set zs)) = int (length zs) - 1
           \<longleftrightarrow> count_list zs a = 2 \<and> (\<forall>x. x \<noteq> a \<longrightarrow> count_list zs x \<le> 1)"
proof -
  have a_in: "a \<in> set zs"
    using assms count_list_0_iff [of zs a] by auto
  define S where "S = set zs - {a}"
  define r where "r = (\<Sum>x\<in>S. count_list zs x - 1)"
  have split: "(\<Sum>x\<in>set zs. count_list zs x - 1) = (count_list zs a - 1) + r"
    unfolding S_def r_def using a_in by (simp add: sum.remove)
  have len: "length zs = card (set zs) + (count_list zs a - 1) + r"
    using length_minus_card [of zs] split by simp
  have zero_iff: "r = 0 \<longleftrightarrow> (\<forall>x. x \<noteq> a \<longrightarrow> count_list zs x \<le> 1)"
  proof
    assume z: "r = 0"
    show "\<forall>x. x \<noteq> a \<longrightarrow> count_list zs x \<le> 1"
    proof (intro allI impI)
      fix x assume "x \<noteq> a"
      show "count_list zs x \<le> 1"
      proof (cases "x \<in> set zs")
        case True
        then have "x \<in> S" using \<open>x \<noteq> a\<close> by (simp add: S_def)
        moreover have "finite S" by (simp add: S_def)
        ultimately have "count_list zs x - 1 = 0" using z unfolding r_def by simp
        then show ?thesis by simp
      next
        case False
        then show ?thesis by (simp add: count_list_0_iff)
      qed
    qed
  next
    assume "\<forall>x. x \<noteq> a \<longrightarrow> count_list zs x \<le> 1"
    then show "r = 0"
      by (simp add: S_def r_def)
  qed
  have "int (card (set zs)) = int (length zs) - 1 \<longleftrightarrow> count_list zs a = 2 \<and> r = 0"
    using len assms by linarith
  then show ?thesis
    using zero_iff by simp
qed

lemma exact_count_iff:
  assumes "new \<in> set xs" "new \<in> set ys"
  shows "int (card (set (xs @ ys))) = int (length xs) + int (length ys) - 1
           \<longleftrightarrow> (\<forall>x \<in> set (xs @ ys). count_list (xs @ ys) x = (if x = new then 2 else 1))"
proof -
  have two: "2 \<le> count_list (xs @ ys) new"
    using count_list_pos [OF assms(1)] count_list_pos [OF assms(2)] by simp
  have new_in: "new \<in> set (xs @ ys)"
    using assms by simp
  have "int (card (set (xs @ ys))) = int (length (xs @ ys)) - 1
          \<longleftrightarrow> count_list (xs @ ys) new = 2 \<and> (\<forall>x. x \<noteq> new \<longrightarrow> count_list (xs @ ys) x \<le> 1)"
    by (rule one_repeat_iff [OF two])
  also have "\<dots> \<longleftrightarrow> (\<forall>x \<in> set (xs @ ys). count_list (xs @ ys) x = (if x = new then 2 else 1))"
  proof (intro iffI conjI ballI allI impI)
    fix x
    assume h: "count_list (xs @ ys) new = 2 \<and> (\<forall>x. x \<noteq> new \<longrightarrow> count_list (xs @ ys) x \<le> 1)"
      and x: "x \<in> set (xs @ ys)"
    show "count_list (xs @ ys) x = (if x = new then 2 else 1)"
      using h count_list_pos [OF x] by (cases "x = new") (auto simp: le_antisym)
  next
    assume h: "\<forall>x \<in> set (xs @ ys). count_list (xs @ ys) x = (if x = new then 2 else 1)"
    show "count_list (xs @ ys) new = 2"
      using h new_in by auto
  next
    fix x
    assume h: "\<forall>x \<in> set (xs @ ys). count_list (xs @ ys) x = (if x = new then 2 else 1)"
      and x: "x \<noteq> new"
    show "count_list (xs @ ys) x \<le> 1"
    proof (cases "x \<in> set (xs @ ys)")
      case True
      then show ?thesis using h x by auto
    next
      case False
      then have "count_list (xs @ ys) x = 0"
        by (simp add: count_list_0_iff)
      then show ?thesis by simp
    qed
  qed
  finally show ?thesis by simp
qed

subsection \<open>The contraction validator\<close>

text \<open>
  C8. On a matched expression the contraction (einsum) validation fails unless the expression
  has exactly one output term and every index of the output term appears in at least one
  input term; an expression meeting both conditions is accepted and returned as it is. Indices
  repeated inside an input term are not looked at, so the expression of \<open>ii->i\<close> is accepted.
\<close>

theorem einsum_validation:
  "validate_einsum e =
     (if length (outputs e) \<noteq> 1 then Inl TooManyOutputs
      else if \<forall>x \<in> set (indices (outputs e ! 0)). \<exists>t \<in> set (inputs e). x \<in> set (indices t)
        then Inr e
      else Inl OutputNotSubsetOfInput)"
proof (cases "length (outputs e) = 1")
  case False
  then show ?thesis by (simp add: validate_einsum_def)
next
  case True
  then obtain t where t: "outputs e = [t]"
    by (cases "outputs e") auto
  have "output_indices e \<subseteq> input_indices e
          \<longleftrightarrow> (\<forall>x \<in> set (indices t). \<exists>u \<in> set (inputs e). x \<in> set (indices u))"
    by (auto simp: output_indices_def input_indices_def t)
  then show ?thesis
    by (simp add: validate_einsum_def t)
qed

theorem einsum_validation_witness:
  "parse_match ''ii->i'' [2] = Inr diag_expr
   \<and> length (outputs diag_expr) = 1
   \<and> set (indices (outputs diag_expr ! 0)) = {Idx 0}
   \<and> set (indices (inputs diag_expr ! 0)) = {Idx 0}
   \<and> validate_einsum diag_expr = Inr diag_expr"
proof -
  have a: "length (outputs diag_expr) = 1"
    by (simp add: diag_expr_def)
  have b: "\<forall>x \<in> set (indices (outputs diag_expr ! 0)).
             \<exists>t \<in> set (inputs diag_expr). x \<in> set (indices t)"
    by (simp add: diag_expr_def)
  have "validate_einsum diag_expr = Inr diag_expr"
    using einsum_validation [of diag_expr] a b by simp
  with a parse_match_diag show ?thesis by (simp add: diag_expr_def)
qed

subsection \<open>The decomposition validators\<close>

lemma new_index_set_eq: "new_index_set e = output_indices e - input_indices e"
  by (simp add: new_index_set_def output_indices_def input_indices_def)

lemma card_one_the_elem: "card D = 1 \<Longrightarrow> D = {the_elem D}"
  by (metis is_singleton_altdef is_singleton_the_elem)

text \<open>The checks that the two decomposition validators share.\<close>

lemma new_index_checks:
  "(card (new_index_set e) = 1
      \<and> the_elem (new_index_set e) \<in> set (indices (outputs e ! 0))
      \<and> the_elem (new_index_set e) \<in> set (indices (outputs e ! 1))
      \<and> length (indices (outputs e ! 0)) \<noteq> 1
      \<and> length (indices (outputs e ! 1)) \<noteq> 1)
   \<longleftrightarrow> new_index_rules e"
proof -
  have len: "x \<in> set xs \<Longrightarrow> length xs \<noteq> 1 \<longleftrightarrow> 2 \<le> length xs" for x :: index and xs
    using length_pos_if_in_set [of x xs] by (cases "length xs") auto
  show ?thesis
  proof (cases "card (new_index_set e) = 1")
    case True
    then obtain new where D: "new_index_set e = {new}"
      using card_one_the_elem by blast
    show ?thesis
      using len [of new] by (auto simp: new_index_rules_def D)
  next
    case False
    then show ?thesis by (simp add: new_index_rules_def)
  qed
qed

lemma validate_einsumsvd_iff:
  "validate_einsumsvd e = Inr e' \<longleftrightarrow>
     e' = e \<and> inputs e \<noteq> [] \<and> length (outputs e) = 2 \<and> new_index_rules e"
  unfolding new_index_checks [symmetric]
  by (auto simp: validate_einsumsvd_def new_index_set_eq Let_def)

lemma validate_einsvd_new_index:
  "validate_einsvd e = Inr e' \<Longrightarrow> new_index_rules e"
  unfolding new_index_checks [symmetric]
  by (auto simp: validate_einsvd_def new_index_set_eq Let_def split: if_splits)

lemma validate_einsvd_iff:
  assumes "length (inputs e) = 1" "length (outputs e) = 2"
  shows "validate_einsvd e = Inr e' \<longleftrightarrow> e' = e \<and> einsvd_exact_rules e"
proof -
  obtain t where t: "inputs e = [t]"
    using assms(1) by (cases "inputs e") auto
  obtain a b where ab: "outputs e = [a, b]"
    using assms(2) by (cases "outputs e"; cases "tl (outputs e)") auto
  have ii: "input_indices e = set (indices t)"
    by (simp add: input_indices_def t)
  have oi: "output_indices e = set (indices a @ indices b)"
    by (simp add: output_indices_def ab)
  have bo: "both_outputs e = indices a @ indices b"
    by (simp add: both_outputs_def ab)
  have dist: "card (set (indices t)) = length (indices t) \<longleftrightarrow> distinct (indices t)"
    using card_distinct distinct_card by blast
  show ?thesis
  proof (cases "new_index_rules e")
    case False
    then show ?thesis
      unfolding einsvd_exact_rules_def
      using False [unfolded new_index_checks [symmetric]]
      by (auto simp: validate_einsvd_def new_index_set_eq Let_def)
  next
    case True
    then obtain new where D: "new_index_set e = {new}"
      using card_one_the_elem by (auto simp: new_index_rules_def)
    have inab: "new \<in> set (indices a)" "new \<in> set (indices b)"
      using True by (auto simp: new_index_rules_def D ab)
    have chk: "card (new_index_set e) = 1
      \<and> the_elem (new_index_set e) \<in> set (indices (outputs e ! 0))
      \<and> the_elem (new_index_set e) \<in> set (indices (outputs e ! 1))
      \<and> length (indices (outputs e ! 0)) \<noteq> 1
      \<and> length (indices (outputs e ! 1)) \<noteq> 1"
      using True by (simp only: new_index_checks)
    have cnt: "int (card (output_indices e))
                 = int (length (indices a)) + int (length (indices b)) - 1
               \<longleftrightarrow> (\<forall>x \<in> set (both_outputs e).
                      count_list (both_outputs e) x = (if x \<in> new_index_set e then 2 else 1))"
      unfolding oi bo D using exact_count_iff [OF inab] by simp
    have "validate_einsvd e = Inr e' \<longleftrightarrow>
            e' = e \<and> distinct (indices t) \<and> set (indices t) \<subseteq> set (indices a @ indices b)
            \<and> int (card (output_indices e))
                 = int (length (indices a)) + int (length (indices b)) - 1"
      using chk unfolding new_index_set_eq
      by (auto simp: validate_einsvd_def Let_def t ab ii dist oi)
    then show ?thesis
      unfolding cnt einsvd_exact_rules_def using True by (auto simp: t bo)
  qed
qed

lemma validate_einsvd_svd_expr: "validate_einsvd svd_expr = Inr svd_expr"
  by (simp add: validate_einsvd_def svd_expr_def eval_sets)

lemma new_index_rules_fused: "new_index_rules fused_expr"
  by (simp add: fused_expr_def eval_sets)

text \<open>
  C7. For the decomposition (einsvd) and the fused (einsumsvd) family, validation of a matched
  expression fails unless the set difference of output indices and input indices has exactly
  one element, that new index occurs in both output terms, and each output term has at least
  two index positions. For einsumsvd the input indices are the union over all input terms,
  and these rules, with at least one input term and exactly two output terms, are all that is
  checked: indices repeated across input terms are accepted.
\<close>

theorem svd_families_new_index_rules:
  "(validate_einsvd e = Inr e' \<longrightarrow> new_index_rules e)
   \<and> (validate_einsumsvd e = Inr e' \<longleftrightarrow>
        e' = e \<and> inputs e \<noteq> [] \<and> length (outputs e) = 2 \<and> new_index_rules e)"
  using validate_einsvd_new_index [of e e'] validate_einsumsvd_iff [of e e'] by blast

theorem svd_families_new_index_rules_witness:
  "validate_einsvd svd_expr = Inr svd_expr \<and> new_index_rules svd_expr
   \<and> inputs fused_expr \<noteq> [] \<and> length (outputs fused_expr) = 2 \<and> new_index_rules fused_expr
   \<and> Idx 1 \<in> set (indices (inputs fused_expr ! 0)) \<inter> set (indices (inputs fused_expr ! 1))
   \<and> validate_einsumsvd fused_expr = Inr fused_expr"
proof -
  have a: "new_index_rules svd_expr"
    using svd_families_new_index_rules [of svd_expr svd_expr] validate_einsvd_svd_expr
    by blast
  have b: "inputs fused_expr \<noteq> [] \<and> length (outputs fused_expr) = 2"
    by (simp add: fused_expr_def)
  have c: "validate_einsumsvd fused_expr = Inr fused_expr"
    using svd_families_new_index_rules [of fused_expr fused_expr] b new_index_rules_fused
    by blast
  have d: "Idx 1 \<in> set (indices (inputs fused_expr ! 0)) \<inter> set (indices (inputs fused_expr ! 1))"
    by (simp add: fused_expr_def)
  show ?thesis
    using a b c d validate_einsvd_svd_expr new_index_rules_fused by blast
qed

lemma exact_rules_svd_expr: "einsvd_exact_rules svd_expr"
  by (simp add: einsvd_exact_rules_def svd_expr_def eval_sets)

text \<open>
  C6 (as amended). For a matched expression with exactly one input term and exactly two output
  terms, einsvd validation fails if and only if one of the family rules is violated, the rule
  on repetition in the outputs being: across the two output terms combined the new index
  occurs exactly twice and every other index exactly once. In particular it fails when an
  index is repeated within the input term, when some input index appears in no output term,
  and when an index other than the new one occurs more than once across the two output
  terms; an expression that satisfies all the rules is returned unchanged.
\<close>

theorem einsvd_validation_exact:
  assumes "length (inputs e) = 1" and "length (outputs e) = 2"
  shows "((\<exists>err. validate_einsvd e = Inl err) \<longleftrightarrow> \<not> einsvd_exact_rules e)
       \<and> (einsvd_exact_rules e \<longrightarrow> validate_einsvd e = Inr e)
       \<and> (\<not> distinct (indices (inputs e ! 0)) \<longrightarrow> validate_einsvd e = Inl RepeatedInputIndex)
       \<and> (distinct (indices (inputs e ! 0))
            \<and> \<not> set (indices (inputs e ! 0)) \<subseteq> set (both_outputs e)
          \<longrightarrow> validate_einsvd e = Inl InputNotSubsetOfOutput)
       \<and> ((\<exists>x \<in> set (both_outputs e).
              x \<notin> new_index_set e \<and> 1 < count_list (both_outputs e) x)
          \<longrightarrow> (\<exists>err. validate_einsvd e = Inl err))"
proof -
  have iff: "validate_einsvd e = Inr e' \<longleftrightarrow> e' = e \<and> einsvd_exact_rules e" for e'
    by (rule validate_einsvd_iff [OF assms])
  have fails: "(\<exists>err. validate_einsvd e = Inl err) \<longleftrightarrow> \<not> einsvd_exact_rules e"
  proof (cases "validate_einsvd e")
    case (Inl err)
    then show ?thesis using iff [of e] by simp
  next
    case (Inr e')
    then show ?thesis using iff [of e'] by simp
  qed
  obtain t where t: "inputs e = [t]"
    using assms(1) by (cases "inputs e") auto
  obtain a b where ab: "outputs e = [a, b]"
    using assms(2) by (cases "outputs e"; cases "tl (outputs e)") auto
  have rep: "\<not> distinct (indices (inputs e ! 0)) \<Longrightarrow> validate_einsvd e = Inl RepeatedInputIndex"
    using distinct_card [of "indices t"] card_distinct [of "indices t"]
    by (auto simp: validate_einsvd_def t ab)
  have sub: "distinct (indices (inputs e ! 0)) \<Longrightarrow>
             \<not> set (indices (inputs e ! 0)) \<subseteq> set (both_outputs e) \<Longrightarrow>
             validate_einsvd e = Inl InputNotSubsetOfOutput"
    using distinct_card [of "indices t"]
    by (auto simp: validate_einsvd_def t ab input_indices_def output_indices_def both_outputs_def)
  have dup: "\<exists>x \<in> set (both_outputs e).
               x \<notin> new_index_set e \<and> 1 < count_list (both_outputs e) x \<Longrightarrow>
             \<not> einsvd_exact_rules e"
    by (auto simp: einsvd_exact_rules_def)
  show ?thesis
    using fails iff [of e] rep sub dup by blast
qed

theorem einsvd_validation_exact_witness:
  "parse_match ''ij->ia,ja'' [2] = Inr svd_expr
   \<and> length (inputs svd_expr) = 1 \<and> length (outputs svd_expr) = 2
   \<and> einsvd_exact_rules svd_expr
   \<and> validate_einsvd svd_expr = Inr svd_expr"
proof -
  have a: "length (inputs svd_expr) = 1" and b: "length (outputs svd_expr) = 2"
    by (simp_all add: svd_expr_def)
  have "validate_einsvd svd_expr = Inr svd_expr"
    using einsvd_validation_exact [OF a b] exact_rules_svd_expr by blast
  then show ?thesis
    using a b exact_rules_svd_expr parse_match_svd by simp
qed

text \<open>
  C6 as stated fails: the matched expression of \<open>ij->iaa,ja\<close> satisfies every rule as the
  specification words it (only the new index is repeated in the outputs), and validation
  rejects it, because the new index occurs three times.
\<close>

theorem einsvd_family_rules_counterexample:
  "parse_match ''ij->iaa,ja'' [2] = Inr triple_expr
   \<and> length (inputs triple_expr) = 1 \<and> length (outputs triple_expr) = 2
   \<and> einsvd_family_rules triple_expr
   \<and> validate_einsvd triple_expr = Inl OnlyNewIndexCanRepeat"
proof -
  have "einsvd_family_rules triple_expr"
    by (simp add: einsvd_family_rules_def triple_expr_def eval_sets)
  moreover have "validate_einsvd triple_expr = Inl OnlyNewIndexCanRepeat"
    by (simp add: validate_einsvd_def triple_expr_def eval_sets)
  moreover have "length (inputs triple_expr) = 1 \<and> length (outputs triple_expr) = 2"
    by (simp add: triple_expr_def)
  ultimately show ?thesis
    using parse_match_triple by simp
qed

subsection \<open>The splitter\<close>

lemma validate_einsumsvd_fused: "validate_einsumsvd fused_expr = Inr fused_expr"
  by (simp add: validate_einsumsvd_def fused_expr_def eval_sets)

lemma new_index_set_fused: "new_index_set fused_expr = {Idx 3}"
  by (simp add: fused_expr_def eval_sets)

text \<open>
  C3 (as amended). For a validated fused (einsumsvd) expression, \<open>split_einsumsvd\<close> builds the
  intermediate term as the ordered concatenation over both output terms (term 1, then term 2)
  of every entry that is not the new index, every occurrence kept: an index occurring in both
  output terms occurs as often in the intermediate term. The contraction half keeps the
  original inputs and has the intermediate term as its single output, with no fusing groups;
  the decomposition half has the intermediate term as its single input and keeps the two
  original output terms with their fusing groups.
\<close>

theorem split_einsumsvd_structure:
  assumes "validate_einsumsvd e = Inr e'"
  shows "\<exists>new. new_index_set e = {new}
           \<and> split_einsumsvd e =
               Inr (\<lparr>inputs = inputs e,
                     outputs =
                       [\<lparr>indices = filter (\<lambda>x. x \<noteq> new) (indices (outputs e ! 0))
                                     @ filter (\<lambda>x. x \<noteq> new) (indices (outputs e ! 1)),
                         source = [], fusing = []\<rparr>],
                     esource = esource e\<rparr>,
                    \<lparr>inputs =
                       [\<lparr>indices = filter (\<lambda>x. x \<noteq> new) (indices (outputs e ! 0))
                                     @ filter (\<lambda>x. x \<noteq> new) (indices (outputs e ! 1)),
                         source = []\<rparr>],
                     outputs = outputs e,
                     esource = esource e\<rparr>)"
proof -
  have rules: "length (outputs e) = 2" "new_index_rules e"
    using assms validate_einsumsvd_iff [of e e'] by auto
  obtain new where D: "new_index_set e = {new}"
    using rules(2) card_one_the_elem by (auto simp: new_index_rules_def)
  obtain a b where ab: "outputs e = [a, b]"
    using rules(1) by (cases "outputs e"; cases "tl (outputs e)") auto
  have "pop (output_indices e - input_indices e) = Inr new"
    using D by (simp add: new_index_set_eq pop_def)
  then have "split_einsumsvd e =
               Inr (\<lparr>inputs = inputs e,
                     outputs =
                       [\<lparr>indices = filter (\<lambda>x. x \<noteq> new) (indices (outputs e ! 0))
                                     @ filter (\<lambda>x. x \<noteq> new) (indices (outputs e ! 1)),
                         source = [], fusing = []\<rparr>],
                     esource = esource e\<rparr>,
                    \<lparr>inputs =
                       [\<lparr>indices = filter (\<lambda>x. x \<noteq> new) (indices (outputs e ! 0))
                                     @ filter (\<lambda>x. x \<noteq> new) (indices (outputs e ! 1)),
                         source = []\<rparr>],
                     outputs = outputs e,
                     esource = esource e\<rparr>)"
    by (simp add: split_einsumsvd_def ab Let_def)
  with D show ?thesis by blast
qed

theorem split_einsumsvd_structure_witness:
  "parse_match ''ij,jk->ia,ka'' [2, 2] = Inr fused_expr
   \<and> validate_einsumsvd fused_expr = Inr fused_expr
   \<and> split_einsumsvd fused_expr =
       Inr (\<lparr>inputs = [\<lparr>indices = [Idx 0, Idx 1], source = ''ij''\<rparr>,
                       \<lparr>indices = [Idx 1, Idx 2], source = ''jk''\<rparr>],
             outputs = [\<lparr>indices = [Idx 0, Idx 2], source = [], fusing = []\<rparr>],
             esource = ''ij,jk->ia,ka''\<rparr>,
            \<lparr>inputs = [\<lparr>indices = [Idx 0, Idx 2], source = []\<rparr>],
             outputs = [\<lparr>indices = [Idx 0, Idx 3], source = ''ia'', fusing = []\<rparr>,
                        \<lparr>indices = [Idx 2, Idx 3], source = ''ka'', fusing = []\<rparr>],
             esource = ''ij,jk->ia,ka''\<rparr>)"
proof -
  obtain new where D: "new_index_set fused_expr = {new}"
    and S: "split_einsumsvd fused_expr =
               Inr (\<lparr>inputs = inputs fused_expr,
                     outputs =
                       [\<lparr>indices = filter (\<lambda>x. x \<noteq> new) (indices (outputs fused_expr ! 0))
                                     @ filter (\<lambda>x. x \<noteq> new) (indices (outputs fused_expr ! 1)),
                         source = [], fusing = []\<rparr>],
                     esource = esource fused_expr\<rparr>,
                    \<lparr>inputs =
                       [\<lparr>indices = filter (\<lambda>x. x \<noteq> new) (indices (outputs fused_expr ! 0))
                                     @ filter (\<lambda>x. x \<noteq> new) (indices (outputs fused_expr ! 1)),
                         source = []\<rparr>],
                     outputs = outputs fused_expr,
                     esource = esource fused_expr\<rparr>)"
    using split_einsumsvd_structure [OF validate_einsumsvd_fused] by blast
  have new: "new = Idx 3"
    using D new_index_set_fused by simp
  show ?thesis
    using S parse_match_fused validate_einsumsvd_fused
    unfolding new by (simp add: fused_expr_def)
qed

text \<open>
  C3 as stated fails: \<open>ij->ia,ia\<close> with rank 2 passes the einsumsvd validation, the index \<open>i\<close>
  occurs in both output terms, and the intermediate term holds it twice.
\<close>

theorem split_einsumsvd_dedup_counterexample:
  "parse_match ''ij->ia,ia'' [2] = Inr dup_expr
   \<and> validate_einsumsvd dup_expr = Inr dup_expr
   \<and> split_einsumsvd dup_expr =
       Inr (\<lparr>inputs = [\<lparr>indices = [Idx 0, Idx 1], source = ''ij''\<rparr>],
             outputs = [\<lparr>indices = [Idx 0, Idx 0], source = [], fusing = []\<rparr>],
             esource = ''ij->ia,ia''\<rparr>,
            \<lparr>inputs = [\<lparr>indices = [Idx 0, Idx 0], source = []\<rparr>],
             outputs = [\<lparr>indices = [Idx 0, Idx 2], source = ''ia'', fusing = []\<rparr>,
                        \<lparr>indices = [Idx 0, Idx 2], source = ''ia'', fusing = []\<rparr>],
             esource = ''ij->ia,ia''\<rparr>)"
proof -
  have "validate_einsumsvd dup_expr = Inr dup_expr"
    by (simp add: validate_einsumsvd_def dup_expr_def eval_sets)
  moreover have "split_einsumsvd dup_expr =
       Inr (\<lparr>inputs = [\<lparr>indices = [Idx 0, Idx 1], source = ''ij''\<rparr>],
             outputs = [\<lparr>indices = [Idx 0, Idx 0], source = [], fusing = []\<rparr>],
             esource = ''ij->ia,ia''\<rparr>,
            \<lparr>inputs = [\<lparr>indices = [Idx 0, Idx 0], source = []\<rparr>],
             outputs = [\<lparr>indices = [Idx 0, Idx 2], source = ''ia'', fusing = []\<rparr>,
                        \<lparr>indices = [Idx 0, Idx 2], source = ''ia'', fusing = []\<rparr>],
             esource = ''ij->ia,ia''\<rparr>)"
    by (simp add: split_einsumsvd_def dup_expr_def pop_def eval_sets)
  ultimately show ?thesis
    using parse_match_dup by simp
qed

subsection \<open>Matching one input term\<close>

lemma input_match_loop_append:
  "input_match_loop len ndim (as @ bs) i acc n =
     (case input_match_loop len ndim as i acc n of
        Inl err \<Rightarrow> Inl err
      | Inr (i', acc', n') \<Rightarrow> input_match_loop len ndim bs i' acc' n')"
  by (induction len ndim as i acc n rule: input_match_loop.induct) (simp_all add: Let_def)

lemma input_match_loop_literals:
  "Ellipsis \<notin> set xs \<Longrightarrow>
   input_match_loop len ndim (enumerate j xs) i acc n = Inr (i + int (length xs), acc @ xs, n)"
proof (induction xs arbitrary: j i acc)
  case Nil
  then show ?case by simp
next
  case (Cons x xs)
  then obtain k where "x = Idx k" by (cases x) auto
  with Cons show ?case by simp
qed

text \<open>Whatever the term, a successful loop has counted one position per produced entry and
  kept every literal index; the counter never decreases.\<close>

lemma input_match_loop_invariant:
  "input_match_loop len ndim ps i acc n = Inr (i', acc', n') \<Longrightarrow>
   i' - i = int (length acc') - int (length acc)
   \<and> length acc + literal_count (map snd ps) \<le> length acc'
   \<and> n \<le> n'"
proof (induction len ndim ps i acc n rule: input_match_loop.induct)
  case (1 len ndim i newindices n)
  then show ?case by (simp add: literal_count_def)
next
  case (2 len ndim j rest i newindices n)
  define count where "count = (ndim - i) - (int len - int j - 1)"
  from "2.prems" have nonneg: "\<not> count < 0"
    by (auto simp: Let_def count_def split: if_splits)
  from "2.prems" nonneg have run:
    "input_match_loop len ndim rest (i + count)
       (newindices @ map Idx [n ..< n + nat count]) (n + nat count) = Inr (i', acc', n')"
    by (simp add: Let_def count_def)
  have ih: "i' - (i + count)
              = int (length acc') - int (length (newindices @ map Idx [n ..< n + nat count]))
            \<and> length (newindices @ map Idx [n ..< n + nat count]) + literal_count (map snd rest)
                \<le> length acc'
            \<and> n + nat count \<le> n'"
    using "2.IH" [OF count_def nonneg run] .
  have lc: "literal_count (map snd ((j, Ellipsis) # rest)) = literal_count (map snd rest)"
    by (simp add: literal_count_def)
  show ?case
    using ih nonneg unfolding lc by simp
next
  case (3 len ndim j k rest i newindices n)
  then show ?case by (auto simp: literal_count_def)
qed

lemma literal_count_le_length: "literal_count xs \<le> length xs"
  by (simp add: literal_count_def)

lemma input_match_length:
  assumes "input_match t r n = Inr (t', n')"
  shows "int (length (indices t')) = r" and "int (literal_count (indices t)) \<le> r"
proof -
  from assms obtain i acc where
    loop: "input_match_loop (length (indices t)) r (enumerate 0 (indices t)) 0 [] n
             = Inr (i, acc, n')"
    and i: "i = r" and t': "t' = \<lparr>indices = acc, source = source t\<rparr>"
    by (auto simp: input_match_def split: sum.splits if_splits)
  have "literal_count (map snd (enumerate 0 (indices t))) = literal_count (indices t)"
    by simp
  with input_match_loop_invariant [OF loop]
  have inv: "i = int (length acc)" "literal_count (indices t) \<le> length acc"
    by simp_all
  show "int (length (indices t')) = r"
    using inv i t' by simp
  show "int (literal_count (indices t)) \<le> r"
    using inv i by simp
qed

lemma input_match_one_ellipsis:
  assumes t: "indices t = pre @ Ellipsis # post"
    and pre: "Ellipsis \<notin> set pre" and post: "Ellipsis \<notin> set post"
  shows "input_match t r n =
           (if r < int (length pre + length post) then Inl (NdimMismatch r)
            else Inr (\<lparr>indices = pre @ map Idx [n ..< n + nat (r - int (length pre + length post))] @ post,
                       source = source t\<rparr>,
                      n + nat (r - int (length pre + length post))))"
proof -
  let ?len = "length (indices t)"
  define c where "c = r - int (length pre + length post)"
  have en: "enumerate 0 (indices t)
              = enumerate 0 pre @ (length pre, Ellipsis) # enumerate (Suc (length pre)) post"
    by (simp add: t enumerate_append_eq)
  have cnt: "(r - int (length pre)) - (int ?len - int (length pre) - 1) = c"
    by (simp add: t c_def)
  have s1: "input_match_loop ?len r (enumerate 0 pre) 0 [] n = Inr (int (length pre), pre, n)"
    using input_match_loop_literals [OF pre, of ?len r 0 0 "[]" n] by simp
  have s2: "input_match_loop ?len r
              ((length pre, Ellipsis) # enumerate (Suc (length pre)) post) (int (length pre)) pre n
            = (if c < 0 then Inl (NdimMismatch r)
               else input_match_loop ?len r (enumerate (Suc (length pre)) post)
                      (int (length pre) + c) (pre @ map Idx [n ..< n + nat c]) (n + nat c))"
    by (simp only: input_match_loop.simps Let_def cnt)
  have s3: "input_match_loop ?len r (enumerate (Suc (length pre)) post)
              (int (length pre) + c) (pre @ map Idx [n ..< n + nat c]) (n + nat c)
            = Inr (int (length pre) + c + int (length post),
                   (pre @ map Idx [n ..< n + nat c]) @ post, n + nat c)"
    by (rule input_match_loop_literals [OF post])
  have fin: "int (length pre) + c + int (length post) = r"
    by (simp add: c_def)
  have "input_match_loop ?len r (enumerate 0 (indices t)) 0 [] n =
          (if c < 0 then Inl (NdimMismatch r)
           else Inr (r, pre @ map Idx [n ..< n + nat c] @ post, n + nat c))"
    unfolding en input_match_loop_append s1
    by (simp add: s2 s3 fin del: input_match_loop.simps)
  then have "input_match t r n =
          (if c < 0 then Inl (NdimMismatch r)
           else Inr (\<lparr>indices = pre @ map Idx [n ..< n + nat c] @ post, source = source t\<rparr>,
                     n + nat c))"
    by (simp add: input_match_def)
  moreover have "c < 0 \<longleftrightarrow> r < int (length pre + length post)"
    by (simp add: c_def)
  ultimately show ?thesis
    unfolding c_def by simp
qed

lemma input_match_no_ellipsis:
  assumes "Ellipsis \<notin> set (indices t)"
  shows "input_match t r n =
           (if int (length (indices t)) = r then Inr (t, n) else Inl (NdimMismatch r))"
  by (simp add: input_match_def input_match_loop_literals [OF assms])

lemma literal_count_one_ellipsis:
  "Ellipsis \<notin> set pre \<Longrightarrow> Ellipsis \<notin> set post \<Longrightarrow>
   literal_count (pre @ Ellipsis # post) = length pre + length post"
proof -
  assume "Ellipsis \<notin> set pre" and "Ellipsis \<notin> set post"
  then have "filter (\<lambda>x. x \<noteq> Ellipsis) pre = pre" "filter (\<lambda>x. x \<noteq> Ellipsis) post = post"
    by (auto simp: filter_id_conv)
  then show ?thesis
    by (simp add: literal_count_def)
qed

lemma input_match_loop_error:
  "input_match_loop len ndim ps i acc n = Inl err \<Longrightarrow> err = NdimMismatch ndim"
  by (induction len ndim ps i acc n rule: input_match_loop.induct)
     (auto simp: Let_def split: if_splits)

lemma input_match_error: "input_match t r n = Inl err \<Longrightarrow> err = NdimMismatch r"
  by (auto simp: input_match_def split: sum.splits if_splits dest: input_match_loop_error)

text \<open>
  C5. Matching an input term with one ellipsis against a rank \<open>r\<close> that is at least the count
  \<open>k\<close> of its literal indices replaces the ellipsis by \<open>r - k\<close> fresh ids, numbered from the
  counter on; whenever matching succeeds the produced term has length exactly \<open>r\<close>; whenever
  \<open>r\<close> is smaller than \<open>k\<close> it fails with the arity error. For a term with no ellipsis matching
  fails unless the literal index count equals \<open>r\<close>, and then returns the term as it is.
\<close>

theorem input_match_rank_exact:
  "(indices t = pre @ Ellipsis # post \<and> Ellipsis \<notin> set pre \<and> Ellipsis \<notin> set post
      \<and> int (literal_count (indices t)) \<le> r
    \<longrightarrow> input_match t r n =
          Inr (\<lparr>indices = pre @ map Idx [n ..< n + nat (r - int (literal_count (indices t)))] @ post,
                source = source t\<rparr>,
               n + nat (r - int (literal_count (indices t)))))
   \<and> (input_match t r n = Inr (t', n') \<longrightarrow> int (length (indices t')) = r)
   \<and> (r < int (literal_count (indices t)) \<longrightarrow> input_match t r n = Inl (NdimMismatch r))
   \<and> (Ellipsis \<notin> set (indices t)
    \<longrightarrow> input_match t r n =
          (if int (length (indices t)) = r then Inr (t, n) else Inl (NdimMismatch r)))"
proof (intro conjI impI)
  assume h: "indices t = pre @ Ellipsis # post \<and> Ellipsis \<notin> set pre \<and> Ellipsis \<notin> set post
      \<and> int (literal_count (indices t)) \<le> r"
  then have k: "literal_count (indices t) = length pre + length post"
    by (simp add: literal_count_one_ellipsis)
  show "input_match t r n =
          Inr (\<lparr>indices = pre @ map Idx [n ..< n + nat (r - int (literal_count (indices t)))] @ post,
                source = source t\<rparr>,
               n + nat (r - int (literal_count (indices t))))"
    using h input_match_one_ellipsis [of t pre post r n] unfolding k by simp
next
  assume "input_match t r n = Inr (t', n')"
  then show "int (length (indices t')) = r"
    by (rule input_match_length(1))
next
  assume small: "r < int (literal_count (indices t))"
  show "input_match t r n = Inl (NdimMismatch r)"
  proof (cases "input_match t r n")
    case (Inl err)
    then show ?thesis using input_match_error by blast
  next
    case (Inr p)
    then obtain t' n' where "input_match t r n = Inr (t', n')" by (cases p) auto
    from input_match_length(2) [OF this] small show ?thesis by simp
  qed
next
  assume "Ellipsis \<notin> set (indices t)"
  then show "input_match t r n =
          (if int (length (indices t)) = r then Inr (t, n) else Inl (NdimMismatch r))"
    by (rule input_match_no_ellipsis)
qed

theorem input_match_rank_exact_witness:
  "input_match bcast_term 3 2 = Inr (\<lparr>indices = [Idx 0, Idx 2, Idx 3], source = ''i...''\<rparr>, 4)
   \<and> input_match bcast_term 0 2 = Inl (NdimMismatch 0)
   \<and> input_match plain_term 2 2 = Inr (plain_term, 2)
   \<and> input_match plain_term 3 2 = Inl (NdimMismatch 3)"
proof -
  have k: "literal_count (indices bcast_term) = 1"
    by (simp add: bcast_term_def literal_count_def)
  have up: "[2 ..< 4] = [2, 3 :: nat]"
    by (simp add: upt_rec)
  have a: "input_match bcast_term 3 2 = Inr (\<lparr>indices = [Idx 0, Idx 2, Idx 3], source = ''i...''\<rparr>, 4)"
    using input_match_rank_exact [of bcast_term "[Idx 0]" "[]" 3 2] k
    by (simp add: bcast_term_def up)
  have b: "input_match bcast_term 0 2 = Inl (NdimMismatch 0)"
    using input_match_rank_exact [of bcast_term "[]" "[]" 0 2] k by simp
  have c: "input_match plain_term 2 2 = Inr (plain_term, 2)"
    using input_match_rank_exact [of plain_term "[]" "[]" 2 2] by (simp add: plain_term_def)
  have d: "input_match plain_term 3 2 = Inl (NdimMismatch 3)"
    using input_match_rank_exact [of plain_term "[]" "[]" 3 2] by (simp add: plain_term_def)
  show ?thesis using a b c d by blast
qed

subsection \<open>Input terms built by the parser\<close>

text \<open>The parser rejects a second ellipsis in a term, so an input term of a parsed expression
  holds at most one.\<close>

lemma input_parse_loop_Cons:
  "input_parse_loop (c # cs) found acc m =
     (if take 3 (c # cs) = ''...'' then
        (if found then Inl MultipleEllipsis
         else input_parse_loop (drop 3 (c # cs)) True (acc @ [Ellipsis]) m)
      else if c = CHR ''('' \<or> c = CHR '')'' then Inl FusingInInput
      else (case setdefault m c of
              (v, m') \<Rightarrow> input_parse_loop cs found (acc @ [Idx v]) m'))"
  by (subst input_parse_loop.simps) (simp only: list.case)

lemma input_parse_loop_one_ellipsis:
  "input_parse_loop s found acc m = Inr (acc', m') \<Longrightarrow>
   count_list acc Ellipsis \<le> 1 \<Longrightarrow> (count_list acc Ellipsis = 1 \<longrightarrow> found) \<Longrightarrow>
   count_list acc' Ellipsis \<le> 1"
proof (induction s found acc m rule: input_parse_loop.induct)
  case (1 s found acc m)
  show ?case
  proof (cases s)
    case Nil
    with "1.prems" show ?thesis
      by (simp add: input_parse_loop.simps)
  next
    case (Cons c cs)
    note step = "1.prems"(1) [unfolded Cons input_parse_loop_Cons, folded Cons]
    show ?thesis
    proof (cases "take 3 s = ''...''")
      case True
      from step True have nf: "\<not> found"
        by (cases found) simp_all
      from step True nf
      have run: "input_parse_loop (drop 3 s) True (acc @ [Ellipsis]) m = Inr (acc', m')"
        by simp
      from nf "1.prems" have "count_list acc Ellipsis = 0" by auto
      then show ?thesis
        using "1.IH"(1) [OF Cons True nf run] by simp
    next
      case False
      from step False have np: "\<not> (c = CHR ''('' \<or> c = CHR '')'')"
        by (cases "c = CHR ''('' \<or> c = CHR '')''") simp_all
      obtain v m1 where sd: "setdefault m c = (v, m1)"
        by (cases "setdefault m c")
      from step False np sd
      have run: "input_parse_loop cs found (acc @ [Idx v]) m1 = Inr (acc', m')"
        by simp
      show ?thesis
        using "1.IH"(2) [OF Cons False np sd [symmetric] run] "1.prems" by simp
    qed
  qed
qed

lemma input_parse_one_ellipsis:
  "input_parse s m = Inr (t, m') \<Longrightarrow> count_list (indices t) Ellipsis \<le> 1"
  by (auto simp: input_parse_def split: sum.splits dest: input_parse_loop_one_ellipsis)

lemma parse_inputs_one_ellipsis:
  "parse_inputs ss m = Inr (ts, m') \<Longrightarrow> \<forall>t \<in> set ts. count_list (indices t) Ellipsis \<le> 1"
proof (induction ss arbitrary: m ts)
  case Nil
  then show ?case by simp
next
  case (Cons s ss)
  from Cons.prems obtain t m1 ts' where
    one: "input_parse s m = Inr (t, m1)" and rest: "parse_inputs ss m1 = Inr (ts', m')"
    and ts: "ts = t # ts'"
    by (auto split: sum.splits)
  show ?case
    using input_parse_one_ellipsis [OF one] Cons.IH [OF rest] by (simp add: ts)
qed

lemma parse_one_ellipsis:
  assumes "parse s = Inr e"
  shows "\<forall>t \<in> set (inputs e). count_list (indices t) Ellipsis \<le> 1"
proof -
  from assms obtain ss m where "parse_inputs ss [] = Inr (inputs e, m)"
    by (auto simp: parse_def Let_def split: if_splits sum.splits)
  then show ?thesis by (rule parse_inputs_one_ellipsis)
qed

subsection \<open>Matching an expression\<close>

lemma expand_loop_result:
  "expand_loop ell (enumerate j xs) acc pos = (acc', pos') \<Longrightarrow>
   acc' = acc @ substitute_ellipsis ell xs
   \<and> (pos' < 0 \<longleftrightarrow> pos < 0 \<and> Ellipsis \<notin> set xs)"
proof (induction xs arbitrary: j acc pos)
  case Nil
  then show ?case by (simp add: substitute_ellipsis_def)
next
  case (Cons x xs)
  show ?case
  proof (cases x)
    case (Idx k)
    with Cons.prems have "expand_loop ell (enumerate (Suc j) xs) (acc @ [Idx k]) pos = (acc', pos')"
      by simp
    from Cons.IH [OF this] show ?thesis
      by (simp add: Idx substitute_ellipsis_def)
  next
    case Ellipsis
    with Cons.prems have "expand_loop ell (enumerate (Suc j) xs) (acc @ ell) (int j) = (acc', pos')"
      by simp
    from Cons.IH [OF this] show ?thesis
      by (simp add: Ellipsis substitute_ellipsis_def)
  qed
qed

lemma expand_cases:
  "expand t ell =
     (if ell \<noteq> [] \<and> Ellipsis \<notin> set (indices t) then Inl ExpectEllipsis
      else Inr \<lparr>indices = substitute_ellipsis ell (indices t), source = source t,
                fusing = fusing (projr (expand t ell))\<rparr>)"
proof -
  obtain acc' pos' where run: "expand_loop ell (enumerate 0 (indices t)) [] (- 1) = (acc', pos')"
    by (cases "expand_loop ell (enumerate 0 (indices t)) [] (- 1)")
  from expand_loop_result [OF run]
  have res: "acc' = substitute_ellipsis ell (indices t)" "pos' < 0 \<longleftrightarrow> Ellipsis \<notin> set (indices t)"
    by simp_all
  show ?thesis
    by (simp add: expand_def run res Let_def)
qed

lemma expand_indices:
  "expand t ell = Inr t' \<Longrightarrow> indices t' = substitute_ellipsis ell (indices t)"
  by (subst (asm) expand_cases) (auto split: if_splits)

lemma expand_missing_ellipsis:
  "ell \<noteq> [] \<Longrightarrow> Ellipsis \<notin> set (indices t) \<Longrightarrow> expand t ell = Inl ExpectEllipsis"
  by (subst expand_cases) simp

lemma expand_error: "expand t ell = Inl err \<Longrightarrow> err = ExpectEllipsis"
  by (subst (asm) expand_cases) (auto split: if_splits)

lemma expand_all_indices:
  "expand_all ts ell = Inr ts' \<Longrightarrow>
   map indices ts' = map (\<lambda>t. substitute_ellipsis ell (indices t)) ts"
  by (induction ts arbitrary: ts') (auto split: sum.splits dest: expand_indices)

lemma expand_all_error: "expand_all ts ell = Inl err \<Longrightarrow> err = ExpectEllipsis"
  by (induction ts) (auto split: sum.splits dest: expand_error)

lemma expand_all_missing_ellipsis:
  "ell \<noteq> [] \<Longrightarrow> \<exists>t \<in> set ts. Ellipsis \<notin> set (indices t) \<Longrightarrow>
   expand_all ts ell = Inl ExpectEllipsis"
proof (induction ts)
  case Nil
  then show ?case by simp
next
  case (Cons t ts)
  show ?case
  proof (cases "expand t ell")
    case (Inl err)
    then show ?thesis using expand_error [OF Inl] by simp
  next
    case (Inr t')
    then have "Ellipsis \<in> set (indices t)"
      using expand_missing_ellipsis [OF Cons.prems(1), of t] by auto
    with Cons.prems have "\<exists>u \<in> set ts. Ellipsis \<notin> set (indices u)" by auto
    from Cons.IH [OF Cons.prems(1) this] Inr show ?thesis by simp
  qed
qed

text \<open>The fresh ids that one input term takes from the counter.\<close>

lemma input_match_counter:
  assumes "input_match t r n = Inr (t', n')" and "count_list (indices t) Ellipsis \<le> 1"
  shows "n' = n + (if Ellipsis \<in> set (indices t)
                   then nat (r - int (literal_count (indices t))) else 0)"
proof (cases "Ellipsis \<in> set (indices t)")
  case False
  then show ?thesis
    using assms(1) input_match_no_ellipsis [OF False, of r n] by (auto split: if_splits)
next
  case True
  then obtain pre post where sp: "indices t = pre @ Ellipsis # post" "Ellipsis \<notin> set pre"
    by (meson split_list_first)
  have post: "Ellipsis \<notin> set post"
  proof
    assume "Ellipsis \<in> set post"
    then have "1 \<le> count_list post Ellipsis" by (rule count_list_pos)
    then show False using assms(2) by (simp add: sp)
  qed
  have k: "literal_count (indices t) = length pre + length post"
    by (simp add: sp literal_count_one_ellipsis post)
  show ?thesis
    using assms(1) True input_match_one_ellipsis [OF sp post, of r n]
    by (auto simp: k split: if_splits)
qed

lemma match_inputs_counter:
  assumes "match_inputs ps n = Inr (ts, n')"
    and "\<forall>t \<in> set (map fst ps). count_list (indices t) Ellipsis \<le> 1"
  shows "n' = n + sum_list [nat (r - int (literal_count (indices t))).
                              (t, r) \<leftarrow> ps, Ellipsis \<in> set (indices t)]"
  using assms
proof (induction ps arbitrary: n ts)
  case Nil
  then show ?case by simp
next
  case (Cons p ps)
  obtain t r where p: "p = (t, r)" by (cases p)
  from Cons.prems(1) obtain t' n1 ts' where
    one: "input_match t r n = Inr (t', n1)" and rest: "match_inputs ps n1 = Inr (ts', n')"
    by (auto simp: p split: sum.splits)
  have "n1 = n + (if Ellipsis \<in> set (indices t)
                   then nat (r - int (literal_count (indices t))) else 0)"
    using input_match_counter [OF one] Cons.prems(2) by (simp add: p)
  moreover have "n' = n1 + sum_list [nat (r - int (literal_count (indices t))).
                              (t, r) \<leftarrow> ps, Ellipsis \<in> set (indices t)]"
    using Cons.IH [OF rest] Cons.prems(2) by simp
  ultimately show ?case by (simp add: p)
qed

lemma match_success:
  assumes "match e ndims = Inr e'"
  obtains n0 n1 newinputs newoutputs where
    "length ndims = length (inputs e)" "nindices e = Inr n0"
    "match_inputs (zip (inputs e) ndims) n0 = Inr (newinputs, n1)"
    "expand_all (outputs e) (map Idx [n0 ..< n1]) = Inr newoutputs"
    "e' = \<lparr>inputs = newinputs, outputs = newoutputs, esource = esource e\<rparr>"
  using assms
  by (auto simp: match_def Let_def split: if_splits sum.splits)

lemma parse_bcast: "parse ''i...,j...->i...,j...'' = Inr bcast_parsed"
  unfolding bcast_parsed_def by code_simp

lemma match_bcast: "match bcast_parsed [3, 2] = Inr bcast_expr"
  unfolding bcast_parsed_def bcast_expr_def by code_simp

lemma run_lengths_bcast: "run_lengths bcast_parsed [3, 2] = [2, 1]"
  by (simp add: run_lengths_def bcast_parsed_def literal_count_def)

lemma nindices_bcast: "nindices bcast_parsed = Inr 2"
  unfolding bcast_parsed_def by code_simp

text \<open>
  C1 (as amended). For every expression whose input terms hold at most one ellipsis each
  (every parsed expression is one), whenever \<open>match\<close> succeeds, the ellipsis of every output term is replaced by one and the same
  run: the fresh ids from \<open>nindices\<close> on, as many as the sum of the broadcast-run lengths of
  the ellipsis-bearing input terms (for \<open>i...,j...->i...,j...\<close> with ranks 3 and 2, each output
  ellipsis expands to a run of length 3).
\<close>

theorem match_output_run_is_total:
  assumes "match e ndims = Inr e'"
    and "\<forall>t \<in> set (inputs e). count_list (indices t) Ellipsis \<le> 1"
  shows "\<exists>n0. nindices e = Inr n0
           \<and> map indices (outputs e') =
               map (\<lambda>t. substitute_ellipsis
                          (map Idx [n0 ..< n0 + sum_list (run_lengths e ndims)]) (indices t))
                   (outputs e)"
proof -
  from assms(1) obtain n0 n1 newinputs newoutputs where
    len: "length ndims = length (inputs e)" and n0: "nindices e = Inr n0"
    and mi: "match_inputs (zip (inputs e) ndims) n0 = Inr (newinputs, n1)"
    and ex: "expand_all (outputs e) (map Idx [n0 ..< n1]) = Inr newoutputs"
    and e': "e' = \<lparr>inputs = newinputs, outputs = newoutputs, esource = esource e\<rparr>"
    by (rule match_success)
  have "\<forall>t \<in> set (map fst (zip (inputs e) ndims)). count_list (indices t) Ellipsis \<le> 1"
    using assms(2) len by simp
  from match_inputs_counter [OF mi this]
  have n1: "n1 = n0 + sum_list (run_lengths e ndims)"
    by (simp add: run_lengths_def)
  show ?thesis
    using expand_all_indices [OF ex] n0 by (auto simp: e' n1)
qed

theorem match_output_run_is_total_witness:
  "parse ''i...,j...->i...,j...'' = Inr bcast_parsed
   \<and> match bcast_parsed [3, 2] = Inr bcast_expr
   \<and> count_list (indices (inputs bcast_parsed ! 0)) Ellipsis = 1
   \<and> count_list (indices (inputs bcast_parsed ! 1)) Ellipsis = 1
   \<and> sum_list (run_lengths bcast_parsed [3, 2]) = 3
   \<and> map indices (outputs bcast_expr) =
       [[Idx 0] @ map Idx [2 ..< 2 + 3], [Idx 1] @ map Idx [2 ..< 2 + 3]]"
proof -
  have one: "\<forall>t \<in> set (inputs bcast_parsed). count_list (indices t) Ellipsis \<le> 1"
    by (rule parse_one_ellipsis [OF parse_bcast])
  obtain n0 where n0: "nindices bcast_parsed = Inr n0"
    and out: "map indices (outputs bcast_expr) =
               map (\<lambda>t. substitute_ellipsis
                          (map Idx [n0 ..< n0 + sum_list (run_lengths bcast_parsed [3, 2])])
                          (indices t))
                   (outputs bcast_parsed)"
    using match_output_run_is_total [OF match_bcast one] by blast
  have n2: "n0 = 2"
    using n0 nindices_bcast by simp
  have total: "sum_list (run_lengths bcast_parsed [3, 2]) = 3"
    unfolding run_lengths_bcast by simp
  have "map indices (outputs bcast_expr) =
       [[Idx 0] @ map Idx [2 ..< 2 + 3], [Idx 1] @ map Idx [2 ..< 2 + 3]]"
    using out unfolding n2 total
    by (simp add: bcast_parsed_def substitute_ellipsis_def)
  moreover have "count_list (indices (inputs bcast_parsed ! 0)) Ellipsis = 1"
    "count_list (indices (inputs bcast_parsed ! 1)) Ellipsis = 1"
    by (simp_all add: bcast_parsed_def)
  ultimately show ?thesis
    using parse_bcast match_bcast total by simp
qed

text \<open>
  C1 as stated fails: for \<open>i...,j...->i...,j...\<close> with ranks 3 and 2 the broadcast-run lengths
  of the inputs are 2 and 1, with maximum 2, and each output ellipsis expands to the three ids
  2, 3, 4.
\<close>

theorem match_output_run_max_counterexample:
  "parse ''i...,j...->i...,j...'' = Inr bcast_parsed
   \<and> match bcast_parsed [3, 2] = Inr bcast_expr
   \<and> run_lengths bcast_parsed [3, 2] = [2, 1]
   \<and> Max (set (run_lengths bcast_parsed [3, 2])) = 2
   \<and> map indices (outputs bcast_expr)
        = [[Idx 0, Idx 2, Idx 3, Idx 4], [Idx 1, Idx 2, Idx 3, Idx 4]]"
  using parse_bcast match_bcast
  by (simp add: run_lengths_bcast) (simp add: bcast_expr_def)

lemma parse_drop: "parse ''i...->i'' = Inr drop_parsed"
  unfolding drop_parsed_def by code_simp

lemma match_inputs_drop:
  "match_inputs (zip (inputs drop_parsed) [2]) 1
     = Inr ([\<lparr>indices = [Idx 0, Idx 1], source = ''i...''\<rparr>], 2)"
  unfolding drop_parsed_def by code_simp

lemma match_drop: "match drop_parsed [2] = Inl ExpectEllipsis"
  unfolding drop_parsed_def by code_simp

lemma parse_einsum_drop: "parse_einsum ''i...->i'' [2] = Inl ExpectEllipsis"
  by code_simp

lemma parse_swap: "parse ''ab...->b...,a'' = Inr swap_parsed"
  unfolding swap_parsed_def by code_simp

lemma nindices_swap: "nindices swap_parsed = Inr 2"
  unfolding swap_parsed_def by code_simp

lemma match_inputs_swap:
  "match_inputs (zip (inputs swap_parsed) [4]) 2
     = Inr ([\<lparr>indices = [Idx 0, Idx 1, Idx 2, Idx 3], source = ''ab...''\<rparr>], 4)"
  unfolding swap_parsed_def by code_simp

text \<open>
  C2 (as amended). For every expression where matching the input terms produces a non-empty
  broadcast run, \<open>match\<close> fails, with the error "expect ellipsis in output subscripts", as soon
  as some output term contains no ellipsis: coverage of the broadcast dimensions by every
  output term is enforced at the match stage.
\<close>

theorem match_requires_output_ellipsis:
  assumes "length ndims = length (inputs e)"
    and "nindices e = Inr n0"
    and "match_inputs (zip (inputs e) ndims) n0 = Inr (newinputs, n1)"
    and "n0 < n1"
    and "\<exists>t \<in> set (outputs e). Ellipsis \<notin> set (indices t)"
  shows "match e ndims = Inl ExpectEllipsis"
proof -
  have "map Idx [n0 ..< n1] \<noteq> []"
    using assms(4) by simp
  from expand_all_missing_ellipsis [OF this assms(5)] show ?thesis
    using assms(1-3) by (simp add: match_def)
qed

theorem match_requires_output_ellipsis_witness:
  "parse ''ab...->b...,a'' = Inr swap_parsed
   \<and> length [4 :: int] = length (inputs swap_parsed)
   \<and> nindices swap_parsed = Inr 2
   \<and> match_inputs (zip (inputs swap_parsed) [4]) 2
        = Inr ([\<lparr>indices = [Idx 0, Idx 1, Idx 2, Idx 3], source = ''ab...''\<rparr>], 4)
   \<and> Ellipsis \<notin> set (indices (outputs swap_parsed ! 1))
   \<and> match swap_parsed [4] = Inl ExpectEllipsis"
proof -
  have len: "length [4 :: int] = length (inputs swap_parsed)"
    by (simp add: swap_parsed_def)
  have lt: "(2 :: nat) < 4" by simp
  have no: "Ellipsis \<notin> set (indices (outputs swap_parsed ! 1))"
    by (simp add: swap_parsed_def)
  then have ex: "\<exists>t \<in> set (outputs swap_parsed). Ellipsis \<notin> set (indices t)"
    by (simp add: swap_parsed_def)
  have "match swap_parsed [4] = Inl ExpectEllipsis"
    by (rule match_requires_output_ellipsis [OF len nindices_swap match_inputs_swap lt ex])
  then show ?thesis
    using parse_swap len nindices_swap match_inputs_swap no by simp
qed

text \<open>
  C2 as stated fails: \<open>i...->i\<close> with rank 2 has the non-empty run of one fresh id, its output
  term has no ellipsis, and \<open>match\<close> fails; no validator is reached.
\<close>

theorem match_output_without_ellipsis_counterexample:
  "parse ''i...->i'' = Inr drop_parsed
   \<and> nindices drop_parsed = Inr 1
   \<and> match_inputs (zip (inputs drop_parsed) [2]) 1
        = Inr ([\<lparr>indices = [Idx 0, Idx 1], source = ''i...''\<rparr>], 2)
   \<and> Ellipsis \<notin> set (indices (outputs drop_parsed ! 0))
   \<and> match drop_parsed [2] = Inl ExpectEllipsis
   \<and> parse_einsum ''i...->i'' [2] = Inl ExpectEllipsis"
proof -
  have "nindices drop_parsed = Inr 1"
    unfolding drop_parsed_def by code_simp
  moreover have "Ellipsis \<notin> set (indices (outputs drop_parsed ! 0))"
    by (simp add: drop_parsed_def)
  ultimately show ?thesis
    using parse_drop match_inputs_drop match_drop parse_einsum_drop by simp
qed

subsection \<open>Output shape resolution\<close>

lemma fuse_axes_Cons:
  "fuse_axes ((s, e) # gs) shape =
     take s shape @ [prod_list (take (e - s) (drop s shape))]
       @ fuse_axes (shift_groups e gs) (drop e shape)"
  by (simp add: shift_groups_def)

lemma reduce_mul_prod_list: "reduce_mul xs = prod_list xs"
proof -
  have "foldl (\<lambda>a b. a * b) a xs = a * prod_list xs" for a :: int
    by (induction xs arbitrary: a) (simp_all add: mult.assoc)
  then show ?thesis by (simp add: reduce_mul_def)
qed

lemma shift_groups_shift:
  "ordered_from e gs \<Longrightarrow> i \<le> e \<Longrightarrow> shift_groups (e - i) (shift_groups i gs) = shift_groups e gs"
  by (auto simp: shift_groups_def)

lemma newshape_loop_fuse_axes:
  "ordered_from i gs \<Longrightarrow>
   newshape_loop gs shape i acc = acc @ fuse_axes (shift_groups i gs) (drop i shape)"
proof (induction gs arbitrary: i acc)
  case Nil
  then show ?case by (simp add: shift_groups_def)
next
  case (Cons g gs)
  obtain s e where g: "g = (s, e)" by (cases g)
  from Cons.prems have ord: "i \<le> s" "s \<le> e" "ordered_from e gs"
    by (simp_all add: g)
  have sh: "shift_groups i (g # gs) = (s - i, e - i) # shift_groups i gs"
    by (simp add: shift_groups_def g)
  have d1: "drop (s - i) (drop i shape) = drop s shape"
    using ord by simp
  have d2: "drop (e - i) (drop i shape) = drop e shape"
    using ord by simp
  have d3: "e - i - (s - i) = e - s"
    using ord by simp
  have "newshape_loop (g # gs) shape i acc =
          newshape_loop gs shape e
            (acc @ slice shape i s @ [reduce_mul (slice shape s e)])"
    by (simp add: g)
  also have "\<dots> = (acc @ slice shape i s @ [reduce_mul (slice shape s e)])
                     @ fuse_axes (shift_groups e gs) (drop e shape)"
    by (rule Cons.IH [OF ord(3)])
  also have "\<dots> = acc @ fuse_axes (shift_groups i (g # gs)) (drop i shape)"
    using ord
    by (simp add: sh fuse_axes_Cons d1 d2 d3 slice_def reduce_mul_prod_list
          shift_groups_shift [OF ord(3)] del: fuse_axes.simps)
  finally show ?case .
qed

text \<open>The parser closes the fusing groups of an output term from left to right, and the
  matcher shifts their boundaries by a monotone map: the groups stay in increasing order.\<close>

lemma ordered_from_snoc:
  "ordered_from i (gs @ [(s, e)]) \<longleftrightarrow> ordered_from i gs \<and> groups_end i gs \<le> s \<and> s \<le> e"
  by (induction i gs rule: ordered_from.induct) auto

lemma groups_end_snoc: "groups_end i (gs @ [(s, e)]) = e"
  by (induction i gs rule: groups_end.induct) auto

lemma output_parse_loop_Cons:
  "output_parse_loop (c # cs) found start acc fus m =
     (if take 3 (c # cs) = ''...'' then
        (if found then Inl MultipleEllipsis
         else output_parse_loop (drop 3 (c # cs)) True start (acc @ [Ellipsis]) fus m)
      else if c = CHR ''('' then
        (if start \<noteq> None then Inl NestedParentheses
         else output_parse_loop cs found (Some (length acc)) acc fus m)
      else if c = CHR '')'' then
        (case start of
           None \<Rightarrow> Inl UnmatchedParentheses
         | Some st \<Rightarrow> output_parse_loop cs found None acc (fus @ [(st, length acc)]) m)
      else (case setdefault m c of
              (v, m') \<Rightarrow> output_parse_loop cs found start (acc @ [Idx v]) fus m'))"
  by (subst output_parse_loop.simps) (simp only: list.case)

lemma output_parse_loop_ordered:
  "output_parse_loop s found start acc fus m = Inr (acc', fus', m') \<Longrightarrow>
   groups_invariant start acc fus \<Longrightarrow> ordered_from 0 fus'"
proof (induction s found start acc fus m rule: output_parse_loop.induct)
  case (1 s found start acc fus m)
  show ?case
  proof (cases s)
    case Nil
    with "1.prems" show ?thesis
      by (auto simp: output_parse_loop.simps groups_invariant_def split: if_splits)
  next
    case (Cons c cs)
    note step = "1.prems"(1) [unfolded Cons output_parse_loop_Cons, folded Cons]
    show ?thesis
    proof (cases "take 3 s = ''...''")
      case True
      from step True have nf: "\<not> found"
        by (cases found) simp_all
      from step True nf
      have run: "output_parse_loop (drop 3 s) True start (acc @ [Ellipsis]) fus m
                   = Inr (acc', fus', m')"
        by simp
      have "groups_invariant start (acc @ [Ellipsis]) fus"
        using "1.prems"(2) by (auto simp: groups_invariant_def split: option.splits)
      from "1.IH"(1) [OF Cons True nf run this] show ?thesis .
    next
      case False
      show ?thesis
      proof (cases "c = CHR ''(''")
        case op: True
        from step False op have ns: "\<not> start \<noteq> None"
          by (cases start) simp_all
        from step False op ns
        have run: "output_parse_loop cs found (Some (length acc)) acc fus m
                     = Inr (acc', fus', m')"
          by simp
        have "groups_invariant (Some (length acc)) acc fus"
          using "1.prems"(2) ns by (simp add: groups_invariant_def)
        from "1.IH"(2) [OF Cons False op ns run this] show ?thesis .
      next
        case nop: False
        show ?thesis
        proof (cases "c = CHR '')''")
          case cl: True
          from step False nop cl obtain st where st: "start = Some st"
            by (cases start) simp_all
          from step False nop cl st
          have run: "output_parse_loop cs found None acc (fus @ [(st, length acc)]) m
                       = Inr (acc', fus', m')"
            by simp
          have "groups_invariant None acc (fus @ [(st, length acc)])"
            using "1.prems"(2) st
            by (simp add: groups_invariant_def ordered_from_snoc groups_end_snoc)
          from "1.IH"(3) [OF Cons False nop cl st run this] show ?thesis .
        next
          case ncl: False
          obtain v m1 where sd: "setdefault m c = (v, m1)"
            by (cases "setdefault m c")
          from step False nop ncl sd
          have run: "output_parse_loop cs found start (acc @ [Idx v]) fus m1
                       = Inr (acc', fus', m')"
            by simp
          have "groups_invariant start (acc @ [Idx v]) fus"
            using "1.prems"(2) by (auto simp: groups_invariant_def split: option.splits)
          from "1.IH"(4) [OF Cons False nop ncl sd [symmetric] run this] show ?thesis .
        qed
      qed
    qed
  qed
qed

lemma output_parse_ordered:
  "output_parse s m = Inr (t, m') \<Longrightarrow> ordered_from 0 (fusing t)"
proof -
  assume "output_parse s m = Inr (t, m')"
  then obtain acc' where "output_parse_loop s False None [] [] m = Inr (acc', fusing t, m')"
    by (auto simp: output_parse_def split: sum.splits)
  moreover have "groups_invariant None [] []"
    by (simp add: groups_invariant_def)
  ultimately show ?thesis by (rule output_parse_loop_ordered)
qed

lemma parse_outputs_ordered:
  "parse_outputs ss m = Inr (ts, m') \<Longrightarrow> \<forall>t \<in> set ts. ordered_from 0 (fusing t)"
proof (induction ss arbitrary: m ts)
  case Nil
  then show ?case by simp
next
  case (Cons s ss)
  from Cons.prems obtain t m1 ts' where
    one: "output_parse s m = Inr (t, m1)" and rest: "parse_outputs ss m1 = Inr (ts', m')"
    and ts: "ts = t # ts'"
    by (auto split: sum.splits)
  show ?case
    using output_parse_ordered [OF one] Cons.IH [OF rest] by (simp add: ts)
qed

lemma parse_ordered:
  assumes "parse s = Inr e"
  shows "\<forall>t \<in> set (outputs e). ordered_from 0 (fusing t)"
proof -
  from assms obtain ss m m' where "parse_outputs ss m = Inr (outputs e, m')"
    by (auto simp: parse_def Let_def split: if_splits sum.splits)
  then show ?thesis by (rule parse_outputs_ordered)
qed

text \<open>Shifting the boundaries after the ellipsis keeps the groups in order.\<close>

lemma pad_mono: "0 \<le> pos \<Longrightarrow> a \<le> b \<Longrightarrow> pad n pos a \<le> pad n pos b"
  by (auto simp: pad_def)

lemma ordered_from_pad:
  "0 \<le> pos \<Longrightarrow> ordered_from i gs \<Longrightarrow>
   ordered_from (pad n pos i)
     (map (\<lambda>(start, end). (pad n pos start, pad n pos end)) gs)"
  by (induction i gs rule: ordered_from.induct) (auto simp: pad_mono)

lemma expand_ordered:
  assumes "expand t ell = Inr t'" and "ordered_from 0 (fusing t)"
  shows "ordered_from 0 (fusing t')"
proof -
  obtain acc' pos' where run: "expand_loop ell (enumerate 0 (indices t)) [] (- 1) = (acc', pos')"
    by (cases "expand_loop ell (enumerate 0 (indices t)) [] (- 1)")
  show ?thesis
  proof (cases "pos' < 0")
    case True
    with assms run show ?thesis
      by (auto simp: expand_def Let_def split: if_splits)
  next
    case False
    then have pos: "0 \<le> pos'" by simp
    have p0: "pad (length ell) pos' 0 = 0"
      using pos by (simp add: pad_def)
    from assms(1) run False
    have "fusing t' = map (\<lambda>(start, end). (pad (length ell) pos' start, pad (length ell) pos' end))
                        (fusing t)"
      by (auto simp: expand_def Let_def split: if_splits)
    then show ?thesis
      using ordered_from_pad [OF pos assms(2), of "length ell"] by (simp add: p0)
  qed
qed

lemma expand_all_ordered:
  "expand_all ts ell = Inr ts' \<Longrightarrow> \<forall>t \<in> set ts. ordered_from 0 (fusing t) \<Longrightarrow>
   \<forall>t \<in> set ts'. ordered_from 0 (fusing t)"
proof (induction ts arbitrary: ts')
  case Nil
  then show ?case by simp
next
  case (Cons t ts)
  from Cons.prems(1) obtain u us where
    one: "expand t ell = Inr u" and rest: "expand_all ts ell = Inr us" and ts': "ts' = u # us"
    by (auto split: sum.splits)
  show ?case
    using expand_ordered [OF one] Cons.IH [OF rest] Cons.prems(2) by (simp add: ts')
qed

lemma substitute_no_ellipsis:
  "Ellipsis \<notin> set ell \<Longrightarrow> Ellipsis \<notin> set (substitute_ellipsis ell xs)"
  by (induction xs) (auto simp: substitute_ellipsis_def)

text \<open>Every output term of a parsed and matched expression is free of ellipses and has its
  fusing groups in increasing order.\<close>

lemma parse_match_outputs:
  assumes "parse_match s ndims = Inr e" and "t \<in> set (outputs e)"
  shows "Ellipsis \<notin> set (indices t) \<and> ordered_from 0 (fusing t)"
proof -
  from assms(1) obtain e0 where p: "parse s = Inr e0" and m: "match e0 ndims = Inr e"
    by (auto simp: parse_match_def and_then_def split: sum.splits)
  from m obtain n0 n1 newinputs newoutputs where
    ex: "expand_all (outputs e0) (map Idx [n0 ..< n1]) = Inr newoutputs"
    and e: "e = \<lparr>inputs = newinputs, outputs = newoutputs, esource = esource e0\<rparr>"
    by (rule match_success)
  have t: "t \<in> set newoutputs"
    using assms(2) by (simp add: e)
  have ord: "ordered_from 0 (fusing t)"
    using expand_all_ordered [OF ex parse_ordered [OF p]] t by blast
  have "indices t \<in> set (map indices newoutputs)"
    using t by simp
  then obtain u :: output_term
    where "indices t = substitute_ellipsis (map Idx [n0 ..< n1]) (indices u)"
    unfolding expand_all_indices [OF ex] by auto
  moreover have "Ellipsis \<notin> set (map Idx [n0 ..< n1])"
    by auto
  ultimately have "Ellipsis \<notin> set (indices t)"
    using substitute_no_ellipsis by metis
  with ord show ?thesis by simp
qed

text \<open>
  C9. For every ellipsis-free output term whose fusing groups are in increasing order (every
  output term of a parsed and matched expression is one), and every physical shape whose
  length equals the term's index count, the resolved shape passes the axes outside every
  fusing group through unchanged and replaces the axes of each fusing group \<open>[start, end)\<close> by
  their single product axis, in increasing group order; with an empty list of fusing groups
  the result is the input shape; and when the length of the shape differs from the term's
  index count the operation fails.
\<close>

theorem newshape_fuses_groups:
  "(Ellipsis \<notin> set (indices t) \<and> length shape = length (indices t)
      \<and> ordered_from 0 (fusing t)
    \<longrightarrow> newshape t shape = Inr (fuse_axes (fusing t) shape))
   \<and> (Ellipsis \<notin> set (indices t) \<and> length shape = length (indices t) \<and> fusing t = []
    \<longrightarrow> newshape t shape = Inr shape)
   \<and> (Ellipsis \<notin> set (indices t) \<and> length shape \<noteq> length (indices t)
    \<longrightarrow> newshape t shape = Inl ShapeMismatch)"
proof -
  have "shift_groups 0 gs = gs" for gs
    by (simp add: shift_groups_def)
  then show ?thesis
    by (auto simp: newshape_def newshape_loop_fuse_axes)
qed

lemma parse_match_fused_matched: "parse_match ''a...->(b...c)(d)'' [4] = Inr fused_matched"
  unfolding fused_matched_def fused_term_def by code_simp

theorem newshape_fuses_groups_witness:
  "parse_match ''a...->(b...c)(d)'' [4] = Inr fused_matched
   \<and> outputs fused_matched = [fused_term]
   \<and> length [2, 3, 4, 5, 6, 7 :: int] = length (indices fused_term)
   \<and> newshape fused_term [2, 3, 4, 5, 6, 7] = Inr [720, 7]
   \<and> newshape (fused_term\<lparr>fusing := []\<rparr>) [2, 3, 4, 5, 6, 7] = Inr [2, 3, 4, 5, 6, 7]
   \<and> newshape fused_term [2, 3, 4] = Inl ShapeMismatch"
proof -
  have o: "outputs fused_matched = [fused_term]"
    by (simp add: fused_matched_def)
  then have "fused_term \<in> set (outputs fused_matched)"
    by simp
  from parse_match_outputs [OF parse_match_fused_matched this]
  have a: "Ellipsis \<notin> set (indices fused_term)" and c: "ordered_from 0 (fusing fused_term)"
    by simp_all
  have b: "length [2, 3, 4, 5, 6, 7 :: int] = length (indices fused_term)"
    by (simp add: fused_term_def)
  have "newshape fused_term [2, 3, 4, 5, 6, 7]
          = Inr (fuse_axes (fusing fused_term) [2, 3, 4, 5, 6, 7])"
    using newshape_fuses_groups [of fused_term "[2, 3, 4, 5, 6, 7]"] a b c by blast
  then have d: "newshape fused_term [2, 3, 4, 5, 6, 7] = Inr [720, 7]"
    by (simp add: fused_term_def)
  have e: "newshape (fused_term\<lparr>fusing := []\<rparr>) [2, 3, 4, 5, 6, 7] = Inr [2, 3, 4, 5, 6, 7]"
    using newshape_fuses_groups [of "fused_term\<lparr>fusing := []\<rparr>" "[2, 3, 4, 5, 6, 7]"] a b
    by simp
  have f: "newshape fused_term [2, 3, 4] = Inl ShapeMismatch"
    using newshape_fuses_groups [of fused_term "[2, 3, 4]"] a
    by (simp add: fused_term_def)
  show ?thesis
    using parse_match_fused_matched o b d e f by blast
qed

subsection \<open>Parsing strings without index letters\<close>

lemma split_arrow_no_dash: "CHR ''-'' \<notin> set s \<Longrightarrow> split_arrow s = [s]"
  by (induction s rule: split_arrow.induct) auto

lemma split_arrow_prefix:
  "CHR ''-'' \<notin> set pre \<Longrightarrow> split_arrow (pre @ ''->'' @ post) = pre # split_arrow post"
proof (induction pre)
  case Nil
  then show ?case by simp
next
  case (Cons c pre)
  obtain d rest where dr: "pre @ ''->'' @ post = d # rest"
    by (cases "pre @ ''->'' @ post") auto
  have ih: "split_arrow (d # rest) = pre # split_arrow post"
    using Cons by (simp add: dr [symmetric])
  have "split_arrow ((c # pre) @ ''->'' @ post) = split_arrow (c # d # rest)"
    using dr by simp
  also have "\<dots> = (c # pre) # split_arrow post"
    using Cons.prems ih by auto
  finally show ?case .
qed

lemma split_char_no_sep: "sep \<notin> set s \<Longrightarrow> split_char sep s = [s]"
  by (induction s) auto

lemma split_char_prefix:
  "sep \<notin> set a \<Longrightarrow> split_char sep (a @ sep # b) = a # split_char sep b"
  by (induction a) auto

lemma split_char_commas:
  "split_char CHR '','' (replicate n CHR '','') = replicate (Suc n) []"
  by (induction n) auto

lemma paren_groups_chars: "set (paren_groups k) \<subseteq> {CHR ''('', CHR '')''}"
  by (induction k) (auto simp: paren_groups_def)

lemma comma_not_in_paren_groups: "CHR '','' \<notin> set (paren_groups k)"
  using paren_groups_chars [of k] by auto

lemma dash_not_in_paren_groups: "CHR ''-'' \<notin> set (paren_groups k)"
  using paren_groups_chars [of k] by auto

lemma split_char_join_comma:
  "split_char CHR '','' (join_comma (map paren_groups (k # ks))) = map paren_groups (k # ks)"
proof (induction ks arbitrary: k)
  case Nil
  then show ?case by (simp add: split_char_no_sep comma_not_in_paren_groups)
next
  case (Cons j ks)
  have "split_char CHR '','' (paren_groups k @ CHR '','' # join_comma (map paren_groups (j # ks)))
          = paren_groups k # split_char CHR '','' (join_comma (map paren_groups (j # ks)))"
    by (rule split_char_prefix [OF comma_not_in_paren_groups])
  with Cons show ?case by simp
qed

lemma set_join_comma: "set (join_comma ts) \<subseteq> (\<Union>t \<in> set ts. set t) \<union> {CHR '',''}"
  by (induction ts rule: join_comma.induct) auto

lemma dash_not_in_join: "CHR ''-'' \<notin> set (join_comma (map paren_groups ks))"
  using set_join_comma [of "map paren_groups ks"] dash_not_in_paren_groups by fastforce

lemma split_arrow_letter_free:
  "split_arrow (letter_free_subscripts n k ks)
     = [replicate n CHR '','', join_comma (map paren_groups (k # ks))]"
proof -
  have "CHR ''-'' \<notin> set (replicate n CHR '','')"
    by simp
  from split_arrow_prefix [OF this]
  show ?thesis
    unfolding letter_free_subscripts_def
    by (simp only: split_arrow_no_dash [OF dash_not_in_join])
qed

lemma input_parse_empty: "input_parse [] m = Inr (\<lparr>indices = [], source = []\<rparr>, m)"
  by (simp add: input_parse_def input_parse_loop.simps)

lemma parse_inputs_empty:
  "parse_inputs (replicate j []) m = Inr (replicate j \<lparr>indices = [], source = []\<rparr>, m)"
  by (induction j) (simp_all add: input_parse_empty)

lemma output_parse_loop_groups:
  "output_parse_loop (paren_groups j) False None [] fus m
     = Inr ([], fus @ replicate j (0, 0), m)"
proof (induction j arbitrary: fus)
  case 0
  then show ?case by (simp add: paren_groups_def output_parse_loop.simps)
next
  case (Suc j)
  have pg: "paren_groups (Suc j) = CHR ''('' # CHR '')'' # paren_groups j"
    by (simp add: paren_groups_def)
  have "output_parse_loop (paren_groups (Suc j)) False None [] fus m
          = output_parse_loop (CHR '')'' # paren_groups j) False (Some 0) [] fus m"
    by (subst output_parse_loop.simps) (simp add: pg)
  also have "\<dots> = output_parse_loop (paren_groups j) False None [] (fus @ [(0, 0)]) m"
    by (subst output_parse_loop.simps) simp
  also have "\<dots> = Inr ([], (fus @ [(0, 0)]) @ replicate j (0, 0), m)"
    by (rule Suc.IH)
  finally show ?case by (simp add: replicate_app_Cons_same)
qed

lemma output_parse_groups:
  "output_parse (paren_groups j) m
     = Inr (\<lparr>indices = [], source = paren_groups j, fusing = replicate j (0, 0)\<rparr>, m)"
  using output_parse_loop_groups [of j "[]" m] by (simp add: output_parse_def)

lemma parse_outputs_groups:
  "parse_outputs (map paren_groups js) m
     = Inr (map (\<lambda>j. \<lparr>indices = [], source = paren_groups j,
                          fusing = replicate j (0, 0)\<rparr>) js, m)"
  by (induction js) (simp_all add: output_parse_groups)

lemma parse_letter_free:
  assumes "filter (\<lambda>c. \<not> is_space c) s = letter_free_subscripts n k ks"
  shows "parse s = Inr (letter_free_expression n k ks)"
proof -
  let ?io = "[replicate n CHR '','', join_comma (map paren_groups (k # ks))]"
  have ins: "parse_inputs (split_char CHR '','' (?io ! 0)) []
               = Inr (replicate (Suc n) \<lparr>indices = [], source = []\<rparr>, [])"
    using parse_inputs_empty [of "Suc n" "[]"] by (simp only: nth_Cons_0 split_char_commas)
  have io1: "?io ! 1 = join_comma (map paren_groups (k # ks))"
    by simp
  have outs: "parse_outputs (split_char CHR '','' (?io ! 1)) []
               = Inr (map (\<lambda>j. \<lparr>indices = [], source = paren_groups j,
                                    fusing = replicate j (0, 0)\<rparr>) (k # ks), [])"
    unfolding io1 split_char_join_comma by (rule parse_outputs_groups)
  have len: "length ?io = 2"
    by simp
  show ?thesis
    unfolding parse_def Let_def assms split_arrow_letter_free
    by (simp only: len ins outs sum.case prod.case list.size letter_free_expression_def)
       (simp add: chars_def)
qed

lemma nindices_letter_free: "nindices (letter_free_expression n k ks) = Inl EmptyMax"
proof -
  have i: "concat (map indices (inputs (letter_free_expression n k ks))) = []"
    by (simp add: letter_free_expression_def del: replicate.simps)
  have o: "concat (map indices (outputs (letter_free_expression n k ks))) = []"
    by (simp add: letter_free_expression_def)
  show ?thesis
    unfolding nindices_def i o by simp
qed

text \<open>
  C10. For every grammatically well-formed subscript string that contains no index letter and
  no ellipsis (for example \<open>->\<close>), \<open>parse\<close> succeeds, and \<open>match\<close> on the resulting expression
  raises for every rank list: for one of the right length, zeros included, the exception is
  the one of \<open>max\<close> on the empty sequence of ids in \<open>nindices\<close>. So \<open>match\<close> is not total on the
  successfully parsed expressions.
\<close>

theorem match_fails_on_letter_free:
  assumes "filter (\<lambda>c. \<not> is_space c) s = letter_free_subscripts n k ks"
  shows "parse s = Inr (letter_free_expression n k ks)
         \<and> match (letter_free_expression n k ks) ndims =
             Inl (if length ndims \<noteq> Suc n then OperandCountMismatch (length ndims)
                  else EmptyMax)"
proof -
  have "length (inputs (letter_free_expression n k ks)) = Suc n"
    by (simp add: letter_free_expression_def)
  then have "match (letter_free_expression n k ks) ndims =
             Inl (if length ndims \<noteq> Suc n then OperandCountMismatch (length ndims)
                  else EmptyMax)"
    by (simp add: match_def nindices_letter_free)
  with parse_letter_free [OF assms] show ?thesis by simp
qed

theorem match_fails_on_letter_free_witness:
  "filter (\<lambda>c. \<not> is_space c) ''->'' = letter_free_subscripts 0 0 []
   \<and> parse ''->'' = Inr \<lparr>inputs = [\<lparr>indices = [], source = []\<rparr>],
                         outputs = [\<lparr>indices = [], source = [], fusing = []\<rparr>],
                         esource = ''->''\<rparr>
   \<and> match \<lparr>inputs = [\<lparr>indices = [], source = []\<rparr>],
             outputs = [\<lparr>indices = [], source = [], fusing = []\<rparr>],
             esource = ''->''\<rparr> [0] = Inl EmptyMax
   \<and> filter (\<lambda>c. \<not> is_space c) '' , -> () , ()() '' = letter_free_subscripts 1 1 [2]
   \<and> parse '' , -> () , ()() '' = Inr (letter_free_expression 1 1 [2])
   \<and> match (letter_free_expression 1 1 [2]) [0, 0] = Inl EmptyMax"
proof -
  have a: "filter (\<lambda>c. \<not> is_space c) ''->'' = letter_free_subscripts 0 0 []"
    by code_simp
  have b: "filter (\<lambda>c. \<not> is_space c) '' , -> () , ()() '' = letter_free_subscripts 1 1 [2]"
    by code_simp
  have e: "letter_free_expression 0 0 [] =
            \<lparr>inputs = [\<lparr>indices = [], source = []\<rparr>],
             outputs = [\<lparr>indices = [], source = [], fusing = []\<rparr>],
             esource = ''->''\<rparr>"
    by code_simp
  show ?thesis
    using match_fails_on_letter_free [OF a, of "[0]"] match_fails_on_letter_free [OF b, of "[0, 0]"]
      a b
    unfolding e by simp
qed

subsection \<open>Density of the ids\<close>

text \<open>The parser numbers the symbols in the order of their first occurrence and puts every
  new id into the term it is parsing; the matcher adds the fresh ids, all of which occur in
  the matched input terms.\<close>

lemma ids_of_append: "ids_of (xs @ ys) = ids_of xs @ ids_of ys"
  by (induction xs rule: ids_of.induct) auto

lemma term_ids_simps:
  "term_ids [] = {}"
  "term_ids (xs @ ys) = term_ids xs \<union> term_ids ys"
  "term_ids [Idx k] = {k}"
  "term_ids [Ellipsis] = {}"
  "term_ids (map Idx ks) = set ks"
proof -
  show "term_ids (map Idx ks) = set ks"
    by (induction ks) (auto simp: term_ids_def)
qed (simp_all add: term_ids_def ids_of_append)

lemma term_ids_concat: "term_ids (concat xss) = (\<Union>xs \<in> set xss. term_ids xs)"
  by (induction xss) (simp_all add: term_ids_simps)

lemma setdefault_dense:
  assumes "setdefault m c = (v, m1)" and "dense_symtab m"
  shows "dense_symtab m1" and "length m \<le> length m1" and "v < length m1"
    and "{length m ..< length m1} \<subseteq> {v}"
proof -
  show "dense_symtab m1" "length m \<le> length m1" "{length m ..< length m1} \<subseteq> {v}"
    using assms by (auto simp: setdefault_def dense_symtab_def split: option.splits)
  show "v < length m1"
  proof (cases "map_of m c")
    case None
    with assms show ?thesis by (auto simp: setdefault_def)
  next
    case (Some w)
    then have "w \<in> set (map snd m)"
      by (metis map_of_SomeD set_zip_rightD zip_map_fst_snd)
    with assms Some show ?thesis
      by (auto simp: setdefault_def dense_symtab_def)
  qed
qed

lemma table_step_refl: "dense_symtab m \<Longrightarrow> table_step m A m A"
  by (auto simp: table_step_def)

lemma table_step_trans:
  assumes "table_step m A m1 A1" and "table_step m1 A1 m2 A2"
  shows "table_step m A m2 A2"
proof -
  from assms have d: "dense_symtab m2" and l1: "length m \<le> length m1"
    and l2: "length m1 \<le> length m2" and s1: "A \<subseteq> A1" and s2: "A1 \<subseteq> A2"
    and u1: "A1 \<subseteq> A \<union> {0 ..< length m1}" and u2: "A2 \<subseteq> A1 \<union> {0 ..< length m2}"
    and f1: "{length m ..< length m1} \<subseteq> A1" and f2: "{length m1 ..< length m2} \<subseteq> A2"
    by (simp_all add: table_step_def)
  have "A2 \<subseteq> A \<union> {0 ..< length m2}"
  proof
    fix k assume "k \<in> A2"
    with u2 have "k \<in> A1 \<or> k < length m2" by auto
    with u1 l2 show "k \<in> A \<union> {0 ..< length m2}" by auto
  qed
  moreover have "{length m ..< length m2} \<subseteq> A2"
  proof
    fix k assume k: "k \<in> {length m ..< length m2}"
    show "k \<in> A2"
    proof (cases "k < length m1")
      case True
      with k f1 have "k \<in> A1" by auto
      with s2 show ?thesis by auto
    next
      case False
      with k have "k \<in> {length m1 ..< length m2}" by simp
      with f2 show ?thesis by blast
    qed
  qed
  ultimately show ?thesis
    using d l1 l2 s1 s2 by (simp add: table_step_def)
qed

lemma table_step_setdefault:
  assumes "setdefault m c = (v, m1)" and "dense_symtab m"
  shows "table_step m A m1 (A \<union> {v})"
  using setdefault_dense [OF assms] by (auto simp: table_step_def)

lemma input_parse_loop_table:
  "input_parse_loop s found acc m = Inr (acc', m') \<Longrightarrow> dense_symtab m \<Longrightarrow>
   table_step m (term_ids acc) m' (term_ids acc')"
proof (induction s found acc m rule: input_parse_loop.induct)
  case (1 s found acc m)
  show ?case
  proof (cases s)
    case Nil
    with "1.prems" show ?thesis
      by (simp add: input_parse_loop.simps table_step_refl)
  next
    case (Cons c cs)
    note step = "1.prems"(1) [unfolded Cons input_parse_loop_Cons, folded Cons]
    show ?thesis
    proof (cases "take 3 s = ''...''")
      case True
      from step True have nf: "\<not> found"
        by (cases found) simp_all
      from step True nf
      have run: "input_parse_loop (drop 3 s) True (acc @ [Ellipsis]) m = Inr (acc', m')"
        by simp
      from "1.IH"(1) [OF Cons True nf run "1.prems"(2)] show ?thesis
        by (simp add: term_ids_simps)
    next
      case False
      from step False have np: "\<not> (c = CHR ''('' \<or> c = CHR '')'')"
        by (cases "c = CHR ''('' \<or> c = CHR '')''") simp_all
      obtain v m1 where sd: "setdefault m c = (v, m1)"
        by (cases "setdefault m c")
      from step False np sd
      have run: "input_parse_loop cs found (acc @ [Idx v]) m1 = Inr (acc', m')"
        by simp
      have "table_step m1 (term_ids (acc @ [Idx v])) m' (term_ids acc')"
        by (rule "1.IH"(2) [OF Cons False np sd [symmetric] run
              setdefault_dense(1) [OF sd "1.prems"(2)]])
      then show ?thesis
        using table_step_trans [OF table_step_setdefault [OF sd "1.prems"(2), of "term_ids acc"]]
        by (simp add: term_ids_simps)
    qed
  qed
qed

lemma output_parse_loop_table:
  "output_parse_loop s found start acc fus m = Inr (acc', fus', m') \<Longrightarrow> dense_symtab m \<Longrightarrow>
   table_step m (term_ids acc) m' (term_ids acc')"
proof (induction s found start acc fus m rule: output_parse_loop.induct)
  case (1 s found start acc fus m)
  show ?case
  proof (cases s)
    case Nil
    with "1.prems" show ?thesis
      by (auto simp: output_parse_loop.simps table_step_refl split: if_splits)
  next
    case (Cons c cs)
    note step = "1.prems"(1) [unfolded Cons output_parse_loop_Cons, folded Cons]
    show ?thesis
    proof (cases "take 3 s = ''...''")
      case True
      from step True have nf: "\<not> found"
        by (cases found) simp_all
      from step True nf
      have run: "output_parse_loop (drop 3 s) True start (acc @ [Ellipsis]) fus m
                   = Inr (acc', fus', m')"
        by simp
      from "1.IH"(1) [OF Cons True nf run "1.prems"(2)] show ?thesis
        by (simp add: term_ids_simps)
    next
      case False
      show ?thesis
      proof (cases "c = CHR ''(''")
        case op: True
        from step False op have ns: "\<not> start \<noteq> None"
          by (cases start) simp_all
        from step False op ns
        have run: "output_parse_loop cs found (Some (length acc)) acc fus m
                     = Inr (acc', fus', m')"
          by simp
        from "1.IH"(2) [OF Cons False op ns run "1.prems"(2)] show ?thesis .
      next
        case nop: False
        show ?thesis
        proof (cases "c = CHR '')''")
          case cl: True
          from step False nop cl obtain st where st: "start = Some st"
            by (cases start) simp_all
          from step False nop cl st
          have run: "output_parse_loop cs found None acc (fus @ [(st, length acc)]) m
                       = Inr (acc', fus', m')"
            by simp
          from "1.IH"(3) [OF Cons False nop cl st run "1.prems"(2)] show ?thesis .
        next
          case ncl: False
          obtain v m1 where sd: "setdefault m c = (v, m1)"
            by (cases "setdefault m c")
          from step False nop ncl sd
          have run: "output_parse_loop cs found start (acc @ [Idx v]) fus m1
                       = Inr (acc', fus', m')"
            by simp
          have "table_step m1 (term_ids (acc @ [Idx v])) m' (term_ids acc')"
            by (rule "1.IH"(4) [OF Cons False nop ncl sd [symmetric] run
                  setdefault_dense(1) [OF sd "1.prems"(2)]])
          then show ?thesis
            using table_step_trans [OF table_step_setdefault [OF sd "1.prems"(2), of "term_ids acc"]]
            by (simp add: term_ids_simps)
        qed
      qed
    qed
  qed
qed

lemma table_step_union:
  assumes "table_step m A m1 A1" and "table_step m1 B m2 B2"
  shows "table_step m (A \<union> B) m2 (A1 \<union> B2)"
proof -
  from assms have d: "dense_symtab m2" and l1: "length m \<le> length m1"
    and l2: "length m1 \<le> length m2" and s1: "A \<subseteq> A1" and s2: "B \<subseteq> B2"
    and u1: "A1 \<subseteq> A \<union> {0 ..< length m1}" and u2: "B2 \<subseteq> B \<union> {0 ..< length m2}"
    and f1: "{length m ..< length m1} \<subseteq> A1" and f2: "{length m1 ..< length m2} \<subseteq> B2"
    by (simp_all add: table_step_def)
  have "A1 \<union> B2 \<subseteq> (A \<union> B) \<union> {0 ..< length m2}"
  proof
    fix k assume "k \<in> A1 \<union> B2"
    then have "k \<in> A \<or> k < length m1 \<or> k \<in> B \<or> k < length m2"
      using u1 u2 by auto
    with l2 show "k \<in> (A \<union> B) \<union> {0 ..< length m2}" by auto
  qed
  moreover have "{length m ..< length m2} \<subseteq> A1 \<union> B2"
  proof
    fix k assume k: "k \<in> {length m ..< length m2}"
    show "k \<in> A1 \<union> B2"
    proof (cases "k < length m1")
      case True
      with k f1 show ?thesis by auto
    next
      case False
      with k have "k \<in> {length m1 ..< length m2}" by simp
      with f2 show ?thesis by blast
    qed
  qed
  moreover have "A \<union> B \<subseteq> A1 \<union> B2"
    using s1 s2 by auto
  ultimately show ?thesis
    using d l1 l2 by (simp add: table_step_def)
qed

lemma parse_inputs_table:
  "parse_inputs ss m = Inr (ts, m') \<Longrightarrow> dense_symtab m \<Longrightarrow>
   table_step m {} m' (terms_ids ts)"
proof (induction ss arbitrary: m ts)
  case Nil
  then show ?case by (simp add: terms_ids_def term_ids_simps table_step_refl)
next
  case (Cons s ss)
  from Cons.prems(1) obtain t m1 ts' where
    one: "input_parse s m = Inr (t, m1)" and rest: "parse_inputs ss m1 = Inr (ts', m')"
    and ts: "ts = t # ts'"
    by (auto split: sum.splits)
  from one have "input_parse_loop s False [] m = Inr (indices t, m1)"
    by (auto simp: input_parse_def split: sum.splits)
  from input_parse_loop_table [OF this Cons.prems(2)]
  have st1: "table_step m {} m1 (term_ids (indices t))"
    by (simp add: term_ids_simps)
  then have "dense_symtab m1" by (simp add: table_step_def)
  from Cons.IH [OF rest this] have st2: "table_step m1 {} m' (terms_ids ts')" .
  from table_step_union [OF st1 st2] show ?case
    by (simp add: ts terms_ids_def term_ids_simps)
qed

lemma parse_outputs_table:
  "parse_outputs ss m = Inr (ts, m') \<Longrightarrow> dense_symtab m \<Longrightarrow>
   table_step m {} m' (terms_ids ts)"
proof (induction ss arbitrary: m ts)
  case Nil
  then show ?case by (simp add: terms_ids_def term_ids_simps table_step_refl)
next
  case (Cons s ss)
  from Cons.prems(1) obtain t m1 ts' where
    one: "output_parse s m = Inr (t, m1)" and rest: "parse_outputs ss m1 = Inr (ts', m')"
    and ts: "ts = t # ts'"
    by (auto split: sum.splits)
  from one obtain fus where "output_parse_loop s False None [] [] m = Inr (indices t, fus, m1)"
    by (auto simp: output_parse_def split: sum.splits)
  from output_parse_loop_table [OF this Cons.prems(2)]
  have st1: "table_step m {} m1 (term_ids (indices t))"
    by (simp add: term_ids_simps)
  then have "dense_symtab m1" by (simp add: table_step_def)
  from Cons.IH [OF rest this] have st2: "table_step m1 {} m' (terms_ids ts')" .
  from table_step_union [OF st1 st2] show ?case
    by (simp add: ts terms_ids_def term_ids_simps)
qed

lemma ids_in_use_terms: "ids_in_use e = terms_ids (inputs e) \<union> terms_ids (outputs e)"
  by (simp add: ids_in_use_def terms_ids_def term_ids_def ids_of_append)

text \<open>With the ids \<open>0, ..., n - 1\<close> in use and \<open>n > 0\<close>, \<open>nindices\<close> is \<open>n\<close>.\<close>

lemma nindices_dense:
  assumes "ids_in_use e = {0 ..< n}" and "0 < n"
  shows "nindices e = Inr n" and "card (ids_in_use e) = n"
proof -
  let ?ids = "ids_of (concat (map indices (inputs e)) @ concat (map indices (outputs e)))"
  have s: "set ?ids = {0 ..< n}"
    using assms(1) by (simp add: ids_in_use_def)
  with assms(2) have ne: "?ids \<noteq> []" by auto
  have "Max {0 ..< n} = n - 1"
    using assms(2) by (intro Max_eqI) auto
  with ne s assms(2) show "nindices e = Inr n"
    by (simp add: nindices_def Let_def)
  show "card (ids_in_use e) = n"
    by (simp add: assms(1))
qed

lemma parse_dense:
  assumes "parse s = Inr e"
  shows "\<exists>n. ids_in_use e = {0 ..< n}"
proof -
  from assms obtain si so m1 m2 where
    ins: "parse_inputs si [] = Inr (inputs e, m1)"
    and outs: "parse_outputs so m1 = Inr (outputs e, m2)"
    by (auto simp: parse_def Let_def split: if_splits sum.splits)
  have d0: "dense_symtab []" by (simp add: dense_symtab_def)
  from parse_inputs_table [OF ins d0] have st1: "table_step [] {} m1 (terms_ids (inputs e))" .
  then have "dense_symtab m1" by (simp add: table_step_def)
  from parse_outputs_table [OF outs this]
  have st2: "table_step m1 {} m2 (terms_ids (outputs e))" .
  from table_step_union [OF st1 st2]
  have "table_step [] {} m2 (ids_in_use e)"
    by (simp add: ids_in_use_terms)
  then have "ids_in_use e = {0 ..< length m2}"
    by (auto simp: table_step_def)
  then show ?thesis ..
qed


lemma input_match_loop_ids:
  "input_match_loop len ndim ps i acc n = Inr (i', acc', n') \<Longrightarrow>
   term_ids acc' = term_ids acc \<union> term_ids (map snd ps) \<union> {n ..< n'} \<and> n \<le> n'"
proof (induction len ndim ps i acc n rule: input_match_loop.induct)
  case (1 len ndim i newindices n)
  then show ?case by (simp add: term_ids_simps)
next
  case (2 len ndim j rest i newindices n)
  define count where "count = (ndim - i) - (int len - int j - 1)"
  from "2.prems" have nonneg: "\<not> count < 0"
    by (auto simp: Let_def count_def split: if_splits)
  from "2.prems" nonneg have run:
    "input_match_loop len ndim rest (i + count)
       (newindices @ map Idx [n ..< n + nat count]) (n + nat count) = Inr (i', acc', n')"
    by (simp add: Let_def count_def)
  from "2.IH" [OF count_def nonneg run]
  have ih: "term_ids acc' = term_ids (newindices @ map Idx [n ..< n + nat count])
              \<union> term_ids (map snd rest) \<union> {n + nat count ..< n'}"
    and le: "n + nat count \<le> n'"
    by simp_all
  have "{n ..< n + nat count} \<union> {n + nat count ..< n'} = {n ..< n'}"
    using le by auto
  then have "term_ids acc' = term_ids newindices \<union> term_ids (map snd rest) \<union> {n ..< n'}"
    unfolding ih by (auto simp: term_ids_simps)
  moreover have "term_ids (map snd ((j, Ellipsis) # rest)) = term_ids (map snd rest)"
    by (simp add: term_ids_def)
  ultimately show ?case using le by simp
next
  case (3 len ndim j k rest i newindices n)
  from "3.prems" have run:
    "input_match_loop len ndim rest (i + 1) (newindices @ [Idx k]) n = Inr (i', acc', n')"
    by simp
  have "term_ids (map snd ((j, Idx k) # rest)) = {k} \<union> term_ids (map snd rest)"
    by (simp add: term_ids_def)
  with "3.IH" [OF run] show ?case
    by (auto simp: term_ids_simps)
qed

lemma input_match_ids:
  assumes "input_match t r n = Inr (t', n')"
  shows "term_ids (indices t') = term_ids (indices t) \<union> {n ..< n'}" and "n \<le> n'"
proof -
  from assms obtain i where
    "input_match_loop (length (indices t)) r (enumerate 0 (indices t)) 0 [] n
       = Inr (i, indices t', n')"
    by (auto simp: input_match_def split: sum.splits if_splits)
  from input_match_loop_ids [OF this]
  show "term_ids (indices t') = term_ids (indices t) \<union> {n ..< n'}" and "n \<le> n'"
    by (simp_all add: term_ids_simps)
qed

lemma match_inputs_ids:
  "match_inputs ps n = Inr (ts, n') \<Longrightarrow>
   terms_ids ts = terms_ids (map fst ps) \<union> {n ..< n'} \<and> n \<le> n'"
proof (induction ps arbitrary: n ts)
  case Nil
  then show ?case by (simp add: terms_ids_def term_ids_simps)
next
  case (Cons p ps)
  obtain t r where p: "p = (t, r)" by (cases p)
  from Cons.prems obtain t' n1 ts' where
    one: "input_match t r n = Inr (t', n1)" and rest: "match_inputs ps n1 = Inr (ts', n')"
    and ts: "ts = t' # ts'"
    by (auto simp: p split: sum.splits)
  from Cons.IH [OF rest]
  have ih: "terms_ids ts' = terms_ids (map fst ps) \<union> {n1 ..< n'}" and le2: "n1 \<le> n'"
    by simp_all
  note a = input_match_ids [OF one]
  have "{n ..< n1} \<union> {n1 ..< n'} = {n ..< n'}"
    using a(2) le2 by auto
  then have "terms_ids ts = terms_ids (map fst (p # ps)) \<union> {n ..< n'}"
    using a(1) ih by (auto simp: ts p terms_ids_def term_ids_simps)
  then show ?case using a(2) le2 by simp
qed

lemma substitute_ids:
  "term_ids xs \<subseteq> term_ids (substitute_ellipsis ell xs)"
  "term_ids (substitute_ellipsis ell xs) \<subseteq> term_ids xs \<union> term_ids ell"
  by (induction xs rule: ids_of.induct)
     (auto simp: substitute_ellipsis_def term_ids_def ids_of_append)

lemma terms_ids_Cons: "terms_ids (t # ts) = term_ids (indices t) \<union> terms_ids ts"
  by (simp add: terms_ids_def term_ids_simps)

lemma expand_all_ids:
  "expand_all ts ell = Inr ts' \<Longrightarrow>
   terms_ids ts \<subseteq> terms_ids ts' \<and> terms_ids ts' \<subseteq> terms_ids ts \<union> term_ids ell"
proof (induction ts arbitrary: ts')
  case Nil
  then show ?case by (simp add: terms_ids_def term_ids_simps)
next
  case (Cons t ts)
  from Cons.prems obtain u us where
    one: "expand t ell = Inr u" and rest: "expand_all ts ell = Inr us" and ts': "ts' = u # us"
    by (auto split: sum.splits)
  have u: "indices u = substitute_ellipsis ell (indices t)"
    by (rule expand_indices [OF one])
  have a: "term_ids (indices t) \<subseteq> term_ids (indices u)"
    and b: "term_ids (indices u) \<subseteq> term_ids (indices t) \<union> term_ids ell"
    unfolding u by (rule substitute_ids)+
  from Cons.IH [OF rest]
  have c: "terms_ids ts \<subseteq> terms_ids us" and d: "terms_ids us \<subseteq> terms_ids ts \<union> term_ids ell"
    by simp_all
  show ?case
    unfolding ts' terms_ids_Cons using a b c d by blast
qed

lemma match_dense:
  assumes "match e ndims = Inr e'" and "ids_in_use e = {0 ..< n}"
  shows "\<exists>n'. 0 < n' \<and> ids_in_use e' = {0 ..< n'}"
proof -
  from assms(1) obtain n0 n1 newinputs newoutputs where
    len: "length ndims = length (inputs e)" and n0: "nindices e = Inr n0"
    and mi: "match_inputs (zip (inputs e) ndims) n0 = Inr (newinputs, n1)"
    and ex: "expand_all (outputs e) (map Idx [n0 ..< n1]) = Inr newoutputs"
    and e': "e' = \<lparr>inputs = newinputs, outputs = newoutputs, esource = esource e\<rparr>"
    by (rule match_success)
  have pos: "0 < n"
  proof (rule ccontr)
    assume "\<not> 0 < n"
    with assms(2) have "ids_in_use e = {}" by simp
    then have "nindices e = Inl EmptyMax"
      by (simp add: nindices_def ids_in_use_def)
    with n0 show False by simp
  qed
  have "n0 = n"
    using nindices_dense(1) [OF assms(2) pos] n0 by simp
  have fst: "map fst (zip (inputs e) ndims) = inputs e"
    using len by simp
  from match_inputs_ids [OF mi]
  have ins: "terms_ids newinputs = terms_ids (inputs e) \<union> {n0 ..< n1}" and le: "n0 \<le> n1"
    by (simp_all add: fst)
  from expand_all_ids [OF ex]
  have o1: "terms_ids (outputs e) \<subseteq> terms_ids newoutputs"
    and o2: "terms_ids newoutputs \<subseteq> terms_ids (outputs e) \<union> {n0 ..< n1}"
    by (simp_all add: term_ids_simps)
  have "ids_in_use e' = terms_ids newinputs \<union> terms_ids newoutputs"
    by (simp add: ids_in_use_terms e')
  also have "\<dots> = (terms_ids (inputs e) \<union> terms_ids (outputs e)) \<union> {n0 ..< n1}"
    unfolding ins using o1 o2 by blast
  also have "\<dots> = ids_in_use e \<union> {n0 ..< n1}"
    by (simp add: ids_in_use_terms)
  also have "\<dots> = {0 ..< n1}"
    unfolding assms(2) using le \<open>n0 = n\<close> by auto
  finally have "ids_in_use e' = {0 ..< n1}" .
  moreover have "0 < n1" using pos le \<open>n0 = n\<close> by simp
  ultimately show ?thesis by blast
qed

text \<open>After \<open>parse\<close> and \<open>match\<close> the ids in use are \<open>0, ..., n - 1\<close> for the \<open>n\<close> that \<open>nindices\<close>
  returns.\<close>

lemma parse_match_dense:
  assumes "parse_match s ndims = Inr e"
  shows "nindices e = Inr (card (ids_in_use e)) \<and> ids_in_use e = {0 ..< card (ids_in_use e)}"
proof -
  from assms obtain e0 where p: "parse s = Inr e0" and m: "match e0 ndims = Inr e"
    by (auto simp: parse_match_def and_then_def split: sum.splits)
  from parse_dense [OF p] obtain n where "ids_in_use e0 = {0 ..< n}" ..
  from match_dense [OF m this] obtain n' where n': "0 < n'" "ids_in_use e = {0 ..< n'}"
    by blast
  from nindices_dense [OF n'(2) n'(1)] n'(2) show ?thesis by simp
qed

text \<open>
  C4. The claim is that in every expression the engine constructs, also in either half that
  the split produces, \<open>nindices\<close> equals the number of distinct ids in use. It holds of every
  parsed and matched expression (\<open>parse_match_dense\<close>). The split breaks it: for
  \<open>ij,jk->ia,ka\<close> with ranks 2 and 2 the decomposition half refers to the ids 0, 2 and 3
  only, and its \<open>nindices\<close> is 4.
\<close>

theorem split_half_skips_an_id:
  "parse_einsumsvd ''ij,jk->ia,ka'' [2, 2] = Inr fused_expr
   \<and> split_einsumsvd fused_expr = Inr (fused_einsum_half, fused_einsvd_half)
   \<and> nindices fused_einsum_half = Inr 3
   \<and> card (ids_in_use fused_einsum_half) = 3
   \<and> nindices fused_einsvd_half = Inr 4
   \<and> ids_in_use fused_einsvd_half = {0, 2, 3}
   \<and> card (ids_in_use fused_einsvd_half) = 3"
proof -
  have a: "parse_einsumsvd ''ij,jk->ia,ka'' [2, 2] = Inr fused_expr"
    by (simp add: parse_einsumsvd_def parse_match_fused and_then_def validate_einsumsvd_fused)
  have b: "split_einsumsvd fused_expr = Inr (fused_einsum_half, fused_einsvd_half)"
    by (simp add: split_einsumsvd_def pop_def fused_expr_def eval_sets
          fused_einsum_half_def fused_einsvd_half_def)
  have c: "nindices fused_einsum_half = Inr 3" "nindices fused_einsvd_half = Inr 4"
    by (simp_all add: nindices_def fused_einsum_half_def fused_einsvd_half_def)
  have d: "ids_in_use fused_einsvd_half = {0, 2, 3}"
    by (auto simp: ids_in_use_def fused_einsvd_half_def)
  have e: "card (ids_in_use fused_einsum_half) = 3"
    by (simp add: ids_in_use_def fused_einsum_half_def card_insert_if)
  show ?thesis
    using a b c e unfolding d by simp
qed

end
